theory Spec2Isabelle
  imports Main "HOL-Library.Word"
begin

unbundle bit_operations_syntax

section \<open>Lanes, registers and VM state (package vm)\<close>

text \<open>
  The portable interpreter works on 16 lanes: every mask is a \<open>uint16\<close> and the drivers build
  the valid-lanes mask as \<open>0xffff >> (bcLaneCount - n)\<close>. A Go array \<open>[bcLaneCount]T\<close> is a
  function from the lane index; only the indices below \<open>bcLaneCount\<close> are ever read or written.
  The opcode functions of the source find their operands with \<open>argptr\<close> (a slot offset read
  from the instruction stream, cast into the register stack); here an opcode takes the
  register values themselves and returns the registers it writes.
\<close>

type_synonym byte = "8 word"
type_synonym vmref = "32 word \<times> 32 word"

definition bcLaneCount :: nat where
  "bcLaneCount = 16"

record kRegData =
  mask :: "16 word"

record bRegData =
  b_offsets :: "nat \<Rightarrow> 32 word"
  b_sizes :: "nat \<Rightarrow> 32 word"

record sRegData =
  s_offsets :: "nat \<Rightarrow> 32 word"
  s_sizes :: "nat \<Rightarrow> 32 word"

record vRegData =
  v_offsets :: "nat \<Rightarrow> 32 word"
  v_sizes :: "nat \<Rightarrow> 32 word"
  v_typeL :: "nat \<Rightarrow> byte"
  v_headerSize :: "nat \<Rightarrow> byte"

record i64RegData =
  i_values :: "nat \<Rightarrow> 64 word"

record hRegData =
  h_lo :: "nat \<Rightarrow> 64 word"
  h_hi :: "nat \<Rightarrow> 64 word"

datatype bcerr = bcerrNone | bcerrCorrupt | bcerrMoreScratch | bcerrNotSupported | bcerrTrap

record vmState =
  delims :: bRegData
  sreg :: sRegData
  validLanes :: kRegData
  outputLanes :: kRegData

text \<open>
  The part of \<open>bytecode\<close> the portable opcodes and the row drivers touch. \<open>vslots\<close> and
  \<open>hslots\<close> are the typed views of the register stack that \<open>slotcast\<close> gives at a slot.
\<close>

record bytecode =
  vmState :: vmState
  auxpos :: nat
  auxvals :: "vmref list list"
  err :: bcerr
  vslots :: "nat \<Rightarrow> vRegData"
  hslots :: "nat \<Rightarrow> hRegData"

text \<open>\<open>bits.OnesCount16\<close>: the number of set bits of a 16-bit mask.\<close>

definition OnesCount16 :: "16 word \<Rightarrow> nat" where
  "OnesCount16 w = length (filter (\<lambda>i. bit w i) [0..<16])"

text \<open>\<open>1 << i\<close> at type \<open>uint16\<close>.\<close>

definition lanebit :: "nat \<Rightarrow> 16 word" where
  "lanebit i = push_bit i 1"

subsection \<open>Terminal opcodes\<close>

definition bcretgo :: "bytecode \<Rightarrow> nat \<Rightarrow> bytecode \<times> nat" where
  "bcretgo bc pc =
     (let bc1 = bc\<lparr>err := bcerrNone\<rparr>;
          bc2 = bc1\<lparr>vmState := (vmState bc1)\<lparr>outputLanes :=
                  (outputLanes (vmState bc1))\<lparr>mask := mask (validLanes (vmState bc1))\<rparr>\<rparr>\<rparr>;
          bc3 = bc2\<lparr>auxpos := auxpos bc2 + OnesCount16 (mask (outputLanes (vmState bc2)))\<rparr>
      in (bc3, pc))"

definition bcretkgo :: "bytecode \<Rightarrow> nat \<Rightarrow> kRegData \<Rightarrow> bytecode \<times> nat" where
  "bcretkgo bc pc k =
     (let bc1 = bc\<lparr>vmState := (vmState bc)\<lparr>outputLanes :=
                  (outputLanes (vmState bc))\<lparr>mask := mask k\<rparr>\<rparr>\<rparr>;
          bc2 = bc1\<lparr>auxpos := auxpos bc1 + OnesCount16 (mask (validLanes (vmState bc1)))\<rparr>
      in (bc2, pc + 2))"

definition bcretbkgo :: "bytecode \<Rightarrow> nat \<Rightarrow> bRegData \<Rightarrow> kRegData \<Rightarrow> bytecode \<times> nat" where
  "bcretbkgo bc pc b k =
     (let bc1 = bc\<lparr>vmState := (vmState bc)\<lparr>delims :=
                  (delims (vmState bc))\<lparr>b_offsets := b_offsets b\<rparr>\<rparr>\<rparr>;
          bc2 = bc1\<lparr>vmState := (vmState bc1)\<lparr>delims :=
                  (delims (vmState bc1))\<lparr>b_sizes := b_sizes b\<rparr>\<rparr>\<rparr>;
          bc3 = bc2\<lparr>vmState := (vmState bc2)\<lparr>outputLanes :=
                  (outputLanes (vmState bc2))\<lparr>mask := mask k\<rparr>\<rparr>\<rparr>;
          bc4 = bc3\<lparr>auxpos := auxpos bc3 + OnesCount16 (mask (validLanes (vmState bc3)))\<rparr>
      in (bc4, pc + 4))"

definition bcretbhkgo :: "bytecode \<Rightarrow> nat \<Rightarrow> bRegData \<Rightarrow> kRegData \<Rightarrow> bytecode \<times> nat" where
  "bcretbhkgo bc pc b k =
     (let bc1 = bc\<lparr>vmState := (vmState bc)\<lparr>delims :=
                  (delims (vmState bc))\<lparr>b_offsets := b_offsets b\<rparr>\<rparr>\<rparr>;
          bc2 = bc1\<lparr>vmState := (vmState bc1)\<lparr>delims :=
                  (delims (vmState bc1))\<lparr>b_sizes := b_sizes b\<rparr>\<rparr>\<rparr>;
          bc3 = bc2\<lparr>vmState := (vmState bc2)\<lparr>outputLanes :=
                  (outputLanes (vmState bc2))\<lparr>mask := mask k\<rparr>\<rparr>\<rparr>;
          bc4 = bc3\<lparr>auxpos := auxpos bc3 + OnesCount16 (mask (validLanes (vmState bc3)))\<rparr>
      in (bc4, pc + 6))"

definition bcretskgo :: "bytecode \<Rightarrow> nat \<Rightarrow> sRegData \<Rightarrow> kRegData \<Rightarrow> bytecode \<times> nat" where
  "bcretskgo bc pc s k =
     (let bc1 = bc\<lparr>vmState := (vmState bc)\<lparr>sreg := s\<rparr>\<rparr>;
          bc2 = bc1\<lparr>vmState := (vmState bc1)\<lparr>outputLanes := k\<rparr>\<rparr>;
          bc3 = bc2\<lparr>auxpos := auxpos bc2 + OnesCount16 (mask (validLanes (vmState bc2)))\<rparr>
      in (bc3, pc + 4))"

section \<open>Value codec primitives (package ion)\<close>

text \<open>
  Modelled from the spec: the readers \<open>TypeOf\<close>, \<open>SizeOf\<close>, \<open>HeaderSizeOf\<close>,
  \<open>ReadLabel\<close>, \<open>ReadUint\<close>, \<open>ReadInt\<close> and \<open>ReadFloat64\<close> of package ion are not among
  the sources. The spec (section 3 and 4.1) gives the encoding: the first byte packs a 4-bit
  type code (high nibble) and a 4-bit length code (low nibble); length codes 0 to 13 are the
  body length, 14 means that the length follows as a base-128 varuint, 15 is the null of the
  type; a bool carries its value in the length code and has no body; integers are a
  big-endian magnitude with the sign in the type code. The varuint is the one
  \<open>encodeSymbol\<close> writes: 7 bits per byte, most significant group first, the last byte
  marked by its high bit.
\<close>

abbreviation NullType :: byte where "NullType \<equiv> 0"
abbreviation BoolType :: byte where "BoolType \<equiv> 1"
abbreviation UintType :: byte where "UintType \<equiv> 2"
abbreviation IntType :: byte where "IntType \<equiv> 3"
abbreviation FloatType :: byte where "FloatType \<equiv> 4"
abbreviation DecimalType :: byte where "DecimalType \<equiv> 5"
abbreviation TimestampType :: byte where "TimestampType \<equiv> 6"
abbreviation SymbolType :: byte where "SymbolType \<equiv> 7"
abbreviation StringType :: byte where "StringType \<equiv> 8"
abbreviation ClobType :: byte where "ClobType \<equiv> 9"
abbreviation BlobType :: byte where "BlobType \<equiv> 10"
abbreviation ListType :: byte where "ListType \<equiv> 11"
abbreviation SexpType :: byte where "SexpType \<equiv> 12"
abbreviation StructType :: byte where "StructType \<equiv> 13"
abbreviation AnnotationType :: byte where "AnnotationType \<equiv> 14"
abbreviation ReservedType :: byte where "ReservedType \<equiv> 15"

text \<open>The varuint reader: \<open>None\<close> when the buffer ends before a byte with the high bit.\<close>

fun readuv :: "nat \<Rightarrow> byte list \<Rightarrow> (nat \<times> byte list) option" where
  "readuv acc [] = None"
| "readuv acc (b # bs) =
     (if b AND 0x80 \<noteq> 0 then Some (acc * 128 + unat (b AND 0x7f), bs)
      else readuv (acc * 128 + unat (b AND 0x7f)) bs)"

definition ReadLabel :: "byte list \<Rightarrow> (nat \<times> byte list) option" where
  "ReadLabel msg = readuv 0 msg"

definition TypeOf :: "byte list \<Rightarrow> byte" where
  "TypeOf msg = drop_bit 4 (hd msg)"

text \<open>\<open>SizeOf\<close> is \<open>-1\<close> when the length varuint is truncated (and on an empty buffer, which
  every caller modelled here excludes before the call).\<close>

fun SizeOf :: "byte list \<Rightarrow> int" where
  "SizeOf [] = -1"
| "SizeOf (t # rest) =
     (if t AND 0x0f = 0x0f then 1
      else if t AND 0x0f = 0x0e then
        (case readuv 0 rest of
           None \<Rightarrow> -1
         | Some (n, rest') \<Rightarrow> 1 + int (length rest - length rest') + int n)
      else if drop_bit 4 t = BoolType then 1
      else 1 + int (unat (t AND 0x0f)))"

fun HeaderSizeOf :: "byte list \<Rightarrow> int" where
  "HeaderSizeOf [] = -1"
| "HeaderSizeOf (t # rest) =
     (if t AND 0x0f = 0x0e then
        (case readuv 0 rest of
           None \<Rightarrow> -1
         | Some (n, rest') \<Rightarrow> 1 + int (length rest - length rest'))
      else 1)"

text \<open>Big-endian magnitude of an integer body.\<close>

definition be_nat :: "byte list \<Rightarrow> nat" where
  "be_nat bs = foldl (\<lambda>a b. a * 256 + unat b) 0 bs"

text \<open>The body of a value with a one-byte header, \<open>None\<close> when the buffer is too short.\<close>

definition short_body :: "byte list \<Rightarrow> byte list option" where
  "short_body msg =
     (case msg of
        [] \<Rightarrow> None
      | t # rest \<Rightarrow>
          if unat (t AND 0x0f) \<le> 8 \<and> unat (t AND 0x0f) \<le> length rest
          then Some (take (unat (t AND 0x0f)) rest) else None)"

text \<open>\<open>ReadUint\<close>: a positive integer as \<open>uint64\<close>; \<open>None\<close> is the reader's error.\<close>

definition ReadUint :: "byte list \<Rightarrow> 64 word option" where
  "ReadUint msg =
     (case short_body msg of
        None \<Rightarrow> None
      | Some body \<Rightarrow> if TypeOf msg = UintType then Some (word_of_nat (be_nat body)) else None)"

text \<open>\<open>ReadInt\<close>: an integer of either sign as \<open>int64\<close>.\<close>

definition ReadInt :: "byte list \<Rightarrow> 64 word option" where
  "ReadInt msg =
     (case short_body msg of
        None \<Rightarrow> None
      | Some body \<Rightarrow>
          if TypeOf msg = UintType then Some (word_of_nat (be_nat body))
          else if TypeOf msg = IntType then Some (- word_of_nat (be_nat body))
          else None)"

text \<open>\<open>ReadFloat64\<close>: the IEEE-754 bit pattern of the 8-byte body (a 4-byte body is a
  \<open>float32\<close>, widened by the conversion the caller passes).\<close>

type_synonym float64 = "64 word"

definition ReadFloat64 :: "(32 word \<Rightarrow> float64) \<Rightarrow> byte list \<Rightarrow> float64 option" where
  "ReadFloat64 widen msg =
     (case short_body msg of
        None \<Rightarrow> None
      | Some body \<Rightarrow>
          if TypeOf msg \<noteq> FloatType then None
          else if length body = 8 then Some (word_of_nat (be_nat body))
          else if length body = 4 then Some (widen (word_of_nat (be_nat body)))
          else if length body = 0 then Some 0
          else None)"

text \<open>
  The floating-point operations the VM uses, as parameters: \<open>f_less a b\<close> is Go's \<open>a < b\<close>
  on \<open>float64\<close>, \<open>f_of_int64\<close> is \<open>float64(i)\<close> and \<open>f_widen\<close> is \<open>float64(f32)\<close>.
\<close>

record f64ops =
  f_less :: "float64 \<Rightarrow> float64 \<Rightarrow> bool"
  f_of_int64 :: "64 word \<Rightarrow> float64"
  f_widen :: "32 word \<Rightarrow> float64"

section \<open>Virtual memory and value references\<close>

text \<open>
  Modelled from the spec: \<open>vmref.mem\<close> and the memory \<open>vmm\<close> are not among the sources. A
  reference is an \<open>(offset, length)\<close> pair into the buffer (spec, section 6); \<open>mem\<close> is the
  slice \<open>vmm[offset : offset+length]\<close>, which panics in Go when it leaves the buffer
  (\<open>None\<close> here).
\<close>

definition vmref_mem :: "byte list \<Rightarrow> vmref \<Rightarrow> byte list option" where
  "vmref_mem vmm r =
     (if unat (fst r) + unat (snd r) \<le> length vmm
      then Some (take (unat (snd r)) (drop (unat (fst r)) vmm)) else None)"

section \<open>Portable opcodes\<close>

subsection \<open>cmplt.i64@imm\<close>

definition bccmplti64immgo :: "i64RegData \<Rightarrow> 64 word \<Rightarrow> kRegData \<Rightarrow> kRegData" where
  "bccmplti64immgo arg0 arg1imm srck =
     (let msk = mask srck;
          retmask = fold (\<lambda>i r. if i_values arg0 i <s arg1imm then r OR lanebit i else r)
                      [0..<bcLaneCount] 0
      in \<lparr>mask = retmask AND msk\<rparr>)"

subsection \<open>cmpv.i64@imm\<close>

text \<open>
  One iteration of the lane loop: the value written to \<open>retslot.values[i]\<close> and whether the
  lane's bit is added to \<open>retmask\<close>; \<open>None\<close> is a panic of \<open>mem\<close>. The readers' errors are
  discarded by the source (\<open>f, _, _ := ...\<close>), the value is then the zero value.
\<close>

definition cmpvi64imm_lane ::
  "f64ops \<Rightarrow> byte list \<Rightarrow> vRegData \<Rightarrow> 64 word \<Rightarrow> 16 word \<Rightarrow> nat \<Rightarrow> (64 word \<times> bool) option" where
  "cmpvi64imm_lane fo vmm src imm msk i =
     (if msk AND lanebit i = 0 then Some (0, False)
      else let start = v_offsets src i; width = v_sizes src i in
        if width = 0 then Some (0, False)
        else case vmref_mem vmm (start, width) of
          None \<Rightarrow> None
        | Some mem \<Rightarrow>
            let ty = drop_bit 4 (v_typeL src i) in
            if ty = FloatType then
              (let f = (case ReadFloat64 (f_widen fo) mem of None \<Rightarrow> 0 | Some x \<Rightarrow> x) in
               Some (if f_less fo f (f_of_int64 fo imm) then -1
                     else if f_less fo (f_of_int64 fo imm) f then 1 else 0, True))
            else if ty = IntType then
              (let j = (case ReadInt mem of None \<Rightarrow> 0 | Some x \<Rightarrow> x) in
               Some (if j <s imm then -1 else if imm <s j then 1 else 0, True))
            else if ty = UintType then
              (let u = (case ReadUint mem of None \<Rightarrow> 0 | Some x \<Rightarrow> x) in
               Some (if imm <s 0 \<or> u < imm then -1 else if imm < u then 1 else 0, True))
            else Some (0, False))"

fun cmpvi64imm_loop ::
  "f64ops \<Rightarrow> byte list \<Rightarrow> vRegData \<Rightarrow> 64 word \<Rightarrow> 16 word \<Rightarrow> nat list \<Rightarrow>
   i64RegData \<times> 16 word \<Rightarrow> (i64RegData \<times> 16 word) option" where
  "cmpvi64imm_loop fo vmm src imm msk [] st = Some st"
| "cmpvi64imm_loop fo vmm src imm msk (i # is) (retslot, retmask) =
     (case cmpvi64imm_lane fo vmm src imm msk i of
        None \<Rightarrow> None
      | Some (rv, cmp) \<Rightarrow>
          cmpvi64imm_loop fo vmm src imm msk is
            (retslot\<lparr>i_values := (i_values retslot)(i := rv)\<rparr>,
             if cmp then retmask OR lanebit i else retmask))"

definition bccmpvi64immgo ::
  "f64ops \<Rightarrow> byte list \<Rightarrow> i64RegData \<Rightarrow> vRegData \<Rightarrow> 64 word \<Rightarrow> kRegData \<Rightarrow>
   (i64RegData \<times> kRegData) option" where
  "bccmpvi64immgo fo vmm retslot argv imm argk =
     (case cmpvi64imm_loop fo vmm argv imm (mask argk) [0..<bcLaneCount] (retslot, 0) of
        None \<Rightarrow> None
      | Some (rs, retmask) \<Rightarrow> Some (rs, \<lparr>mask = retmask\<rparr>))"

subsection \<open>tuple\<close>

text \<open>The body of the lane loop for lane \<open>i\<close>, on the pair of \<open>dstb\<close> and \<open>retmask\<close>.\<close>

definition tuple_lane :: "vRegData \<Rightarrow> 16 word \<Rightarrow> nat \<Rightarrow> bRegData \<times> 16 word \<Rightarrow> bRegData \<times> 16 word" where
  "tuple_lane src msk i st =
     (let dstb = fst st; retmask = snd st;
          b0 = dstb\<lparr>b_offsets := (b_offsets dstb)(i := 0), b_sizes := (b_sizes dstb)(i := 0)\<rparr>
      in if msk AND lanebit i = 0 \<or> drop_bit 4 (v_typeL src i) \<noteq> StructType \<or>
            v_sizes src i = 0
         then (b0, retmask)
         else let hdrsize = (ucast (v_headerSize src i) :: 32 word) in
           (b0\<lparr>b_offsets := (b_offsets b0)(i := v_offsets src i + hdrsize),
               b_sizes := (b_sizes b0)(i := v_sizes src i - hdrsize)\<rparr>,
            retmask OR lanebit i))"

definition bctuplego :: "bRegData \<Rightarrow> vRegData \<Rightarrow> kRegData \<Rightarrow> bRegData \<times> kRegData" where
  "bctuplego dstb srcv srck =
     (let st = fold (tuple_lane srcv (mask srck)) [0..<bcLaneCount] (dstb, 0)
      in (fst st, \<lparr>mask = snd st\<rparr>))"

subsection \<open>findsym\<close>

text \<open>
  The outcome of the inner \<open>symsearch\<close> loop of one lane: it ends with the lane of
  \<open>dstv\<close> as given and the lane's bit set or not, or a label cannot be read (the source
  sets \<open>bcerrCorrupt\<close> and leaves the lane loop), or Go panics (an index or a slice bound
  out of range: \<open>mem[0]\<close> on an empty slice, \<open>mem[SizeOf(mem):]\<close> past the end).
\<close>

datatype 'a outcome = Done 'a | Corrupt 'a | Panic

lemma readuv_length: "readuv acc msg = Some (n, rest) \<Longrightarrow> length rest < length msg"
  by (induction acc msg rule: readuv.induct) (auto split: if_splits)

lemma ReadLabel_length: "ReadLabel msg = Some (n, rest) \<Longrightarrow> length rest < length msg"
  by (simp add: ReadLabel_def readuv_length)

function symsearch ::
  "nat \<Rightarrow> 32 word \<Rightarrow> 32 word \<Rightarrow> nat \<Rightarrow> byte list \<Rightarrow> vRegData \<Rightarrow> (vRegData \<times> bool) outcome" where
  "symsearch symbol start width i mem dstv =
     (if mem = [] then Done (dstv, False)
      else case ReadLabel mem of
        None \<Rightarrow> Corrupt (dstv, False)
      | Some (lbl, mem') \<Rightarrow>
          if lbl > symbol then Done (dstv, False)
          else if mem' = [] then Panic
          else
            let dstv' = dstv\<lparr>
                  v_offsets := (v_offsets dstv)(i := start + width - word_of_nat (length mem')),
                  v_sizes := (v_sizes dstv)(i := word_of_int (SizeOf mem')),
                  v_typeL := (v_typeL dstv)(i := hd mem'),
                  v_headerSize := (v_headerSize dstv)(i := word_of_int (HeaderSizeOf mem'))\<rparr>
            in if lbl = symbol then Done (dstv', True)
               else if SizeOf mem' < 0 \<or> int (length mem') < SizeOf mem' then Panic
               else symsearch symbol start width i (drop (nat (SizeOf mem')) mem') dstv')"
  by pat_completeness auto
termination
  by (relation "measure (\<lambda>(symbol, start, width, i, mem, dstv). length mem)")
     (auto dest: ReadLabel_length)

declare symsearch.simps [simp del]

text \<open>The body of the lane loop for lane \<open>i\<close>.\<close>

definition findsym_lane ::
  "byte list \<Rightarrow> bRegData \<Rightarrow> nat \<Rightarrow> 16 word \<Rightarrow> nat \<Rightarrow> vRegData \<Rightarrow> (vRegData \<times> bool) outcome" where
  "findsym_lane vmm src symbol srcmask i dstv =
     (let start = b_offsets src i; width = b_sizes src i;
          dstv0 = dstv\<lparr>v_offsets := (v_offsets dstv)(i := start),
                       v_sizes := (v_sizes dstv)(i := 0),
                       v_typeL := (v_typeL dstv)(i := 0),
                       v_headerSize := (v_headerSize dstv)(i := 0)\<rparr>
      in if srcmask AND lanebit i = 0 then Done (dstv0, False)
         else case vmref_mem vmm (start, width) of
           None \<Rightarrow> Panic
         | Some mem \<Rightarrow> symsearch symbol start width i mem dstv0)"

text \<open>The lane loop; \<open>Corrupt\<close> is \<open>break outer\<close>: the remaining lanes are not visited.\<close>

fun findsym_lanes ::
  "byte list \<Rightarrow> bRegData \<Rightarrow> nat \<Rightarrow> 16 word \<Rightarrow> nat list \<Rightarrow> vRegData \<times> 16 word \<Rightarrow>
   (vRegData \<times> 16 word) outcome" where
  "findsym_lanes vmm src symbol srcmask [] st = Done st"
| "findsym_lanes vmm src symbol srcmask (i # is) (dstv, retmask) =
     (case findsym_lane vmm src symbol srcmask i dstv of
        Panic \<Rightarrow> Panic
      | Corrupt (dstv', hit) \<Rightarrow> Corrupt (dstv', retmask)
      | Done (dstv', hit) \<Rightarrow>
          findsym_lanes vmm src symbol srcmask is
            (dstv', if hit then retmask OR lanebit i else retmask))"

text \<open>
  \<open>bcfindsymgo\<close>: the registers \<open>dstv\<close> and \<open>dstk\<close> and the error field after the opcode,
  \<open>None\<close> for a panic. \<open>symbol\<close> is the label read from the instruction stream.
\<close>

definition bcfindsymgo ::
  "byte list \<Rightarrow> bcerr \<Rightarrow> vRegData \<Rightarrow> bRegData \<Rightarrow> nat \<Rightarrow> kRegData \<Rightarrow>
   (vRegData \<times> kRegData \<times> bcerr) option" where
  "bcfindsymgo vmm e dstv srcb symbol srck =
     (case findsym_lanes vmm srcb symbol (mask srck) [0..<bcLaneCount] (dstv, 0) of
        Panic \<Rightarrow> None
      | Corrupt (dstv', retmask) \<Rightarrow> Some (dstv', \<lparr>mask = retmask\<rparr>, bcerrCorrupt)
      | Done (dstv', retmask) \<Rightarrow> Some (dstv', \<lparr>mask = retmask\<rparr>, e))"

text \<open>
  The fields of a struct body, as the validation loop of \<open>decodeStructDatum\<close> walks them: a
  label, then a value that lies within the body. Each field is given by its label, the
  position of its value in the body and the bytes of the value. \<open>None\<close> when the body is
  not such a sequence.
\<close>

function struct_fields :: "nat \<Rightarrow> byte list \<Rightarrow> (nat \<times> nat \<times> byte list) list option" where
  "struct_fields pos body =
     (if body = [] then Some []
      else case ReadLabel body of
        None \<Rightarrow> None
      | Some (lbl, rest) \<Rightarrow>
          if rest = [] then None
          else if SizeOf rest \<le> 0 \<or> int (length rest) < SizeOf rest then None
          else
            (case struct_fields (pos + (length body - length rest) + nat (SizeOf rest))
                    (drop (nat (SizeOf rest)) rest) of
               None \<Rightarrow> None
             | Some fs \<Rightarrow>
                 Some ((lbl, pos + (length body - length rest), take (nat (SizeOf rest)) rest) # fs)))"
  by pat_completeness auto
termination
  by (relation "measure (\<lambda>(pos, body). length body)") (auto dest: ReadLabel_length)

declare struct_fields.simps [simp del]

text \<open>A VM state with all 16 lanes valid and nothing else set, for concrete evaluations.\<close>

definition bc_full :: bytecode where
  "bc_full =
     \<lparr>vmState = \<lparr>delims = \<lparr>b_offsets = (\<lambda>_. 0), b_sizes = (\<lambda>_. 0)\<rparr>,
                 sreg = \<lparr>s_offsets = (\<lambda>_. 0), s_sizes = (\<lambda>_. 0)\<rparr>,
                 validLanes = \<lparr>mask = 0xffff\<rparr>,
                 outputLanes = \<lparr>mask = 0\<rparr>\<rparr>,
      auxpos = 0, auxvals = [], err = bcerrNone,
      vslots = (\<lambda>_. \<lparr>v_offsets = (\<lambda>_. 0), v_sizes = (\<lambda>_. 0),
                       v_typeL = (\<lambda>_. 0), v_headerSize = (\<lambda>_. 0)\<rparr>),
      hslots = (\<lambda>_. \<lparr>h_lo = (\<lambda>_. 0), h_hi = (\<lambda>_. 0)\<rparr>)\<rparr>"

subsection \<open>What findsym is expected to leave in a lane\<close>

text \<open>The four components of lane \<open>i\<close> of a value register.\<close>

definition v_lane :: "vRegData \<Rightarrow> nat \<Rightarrow> 32 word \<times> 32 word \<times> byte \<times> byte" where
  "v_lane d i = (v_offsets d i, v_sizes d i, v_typeL d i, v_headerSize d i)"

definition set_lane :: "nat \<Rightarrow> 32 word \<times> 32 word \<times> byte \<times> byte \<Rightarrow> vRegData \<Rightarrow> vRegData" where
  "set_lane i x d =
     d\<lparr>v_offsets := (v_offsets d)(i := fst x),
       v_sizes := (v_sizes d)(i := fst (snd x)),
       v_typeL := (v_typeL d)(i := fst (snd (snd x))),
       v_headerSize := (v_headerSize d)(i := snd (snd (snd x)))\<rparr>"

text \<open>The fields of the struct body that lane \<open>j\<close> of a base register spans.\<close>

definition lane_fields :: "byte list \<Rightarrow> bRegData \<Rightarrow> nat \<Rightarrow> (nat \<times> nat \<times> byte list) list option" where
  "lane_fields vmm srcb j =
     (case vmref_mem vmm (b_offsets srcb j, b_sizes srcb j) of
        None \<Rightarrow> None
      | Some body \<Rightarrow> struct_fields 0 body)"

text \<open>The reference to the value of a field of a body that starts at \<open>start\<close>: offset, length,
  type byte and header length.\<close>

definition field_ref :: "32 word \<Rightarrow> nat \<times> nat \<times> byte list \<Rightarrow> 32 word \<times> 32 word \<times> byte \<times> byte" where
  "field_ref start f =
     (case f of (lbl, pos, v) \<Rightarrow>
        (start + word_of_nat pos, word_of_nat (length v), hd v, word_of_int (HeaderSizeOf v)))"

text \<open>
  The lane of the value register and the lane's mask bit after a lookup of \<open>symbol\<close>, said
  with the fields: on a hit, the reference to the value of the field with that label; on a
  miss, the reference to the value of the last field with a smaller label, or the start of
  the body with length, type byte and header length zero when no label is smaller.
\<close>

definition findsym_expect ::
  "nat \<Rightarrow> 32 word \<Rightarrow> (nat \<times> nat \<times> byte list) list \<Rightarrow> (32 word \<times> 32 word \<times> byte \<times> byte) \<times> bool" where
  "findsym_expect symbol start fs =
     (case filter (\<lambda>f. fst f = symbol) fs of
        f # _ \<Rightarrow> (field_ref start f, True)
      | [] \<Rightarrow>
          (case filter (\<lambda>f. fst f < symbol) fs of
             [] \<Rightarrow> ((start, 0, 0, 0), False)
           | g # gs \<Rightarrow> (field_ref start (last (g # gs)), False)))"

text \<open>The search of \<open>symsearch\<close>, replayed on the list of fields (used in the proofs).\<close>

fun scan ::
  "nat \<Rightarrow> 32 word \<Rightarrow> (nat \<times> nat \<times> byte list) list \<Rightarrow> 32 word \<times> 32 word \<times> byte \<times> byte \<Rightarrow>
   (32 word \<times> 32 word \<times> byte \<times> byte) \<times> bool" where
  "scan symbol start [] x = (x, False)"
| "scan symbol start (f # fs) x =
     (if fst f > symbol then (x, False)
      else if fst f = symbol then (field_ref start f, True)
      else scan symbol start fs (field_ref start f))"

definition lane_res ::
  "byte list \<Rightarrow> bRegData \<Rightarrow> nat \<Rightarrow> 16 word \<Rightarrow> nat \<Rightarrow> (32 word \<times> 32 word \<times> byte \<times> byte) \<times> bool" where
  "lane_res vmm srcb symbol srcmask j =
     (if srcmask AND lanebit j = 0 then ((b_offsets srcb j, 0, 0, 0), False)
      else scan symbol (b_offsets srcb j) (the (lane_fields vmm srcb j)) (b_offsets srcb j, 0, 0, 0))"

text \<open>
  Concrete inputs. The struct body of scenario 2 of the spec: fields with the labels
  5, 9, 12 and 20, each with a one-byte positive integer as value, in lane 0.
\<close>

definition body_5_9_12_20 :: "byte list" where
  "body_5_9_12_20 =
     [0x85, 0x21, 0x01, 0x89, 0x21, 0x02, 0x8c, 0x21, 0x03, 0x94, 0x21, 0x04]"

definition breg_lane0 :: "32 word \<Rightarrow> 32 word \<Rightarrow> bRegData" where
  "breg_lane0 off sz =
     \<lparr>b_offsets = (\<lambda>i. if i = 0 then off else 0), b_sizes = (\<lambda>i. if i = 0 then sz else 0)\<rparr>"

definition vreg_zero :: vRegData where
  "vreg_zero = \<lparr>v_offsets = (\<lambda>_. 0), v_sizes = (\<lambda>_. 0), v_typeL = (\<lambda>_. 0), v_headerSize = (\<lambda>_. 0)\<rparr>"

text \<open>A value register whose lane 0 refers to the two bytes at offset 0, with the given
  type byte.\<close>

definition vreg_lane0 :: "byte \<Rightarrow> vRegData" where
  "vreg_lane0 t =
     \<lparr>v_offsets = (\<lambda>_. 0), v_sizes = (\<lambda>i. if i = 0 then 2 else 0),
      v_typeL = (\<lambda>i. if i = 0 then t else 0), v_headerSize = (\<lambda>i. if i = 0 then 1 else 0)\<rparr>"

definition no_floats :: f64ops where
  "no_floats = \<lparr>f_less = (\<lambda>a b. False), f_of_int64 = (\<lambda>i. 0), f_widen = (\<lambda>w. 0)\<rparr>"

section \<open>Row drivers\<close>

text \<open>
  \<open>eval\<close> runs the instruction stream while the error field is clear; it does nothing when
  the field is already set on entry. The drivers are generic in the compiled program, so the
  effect of the instruction stream on a VM state whose error field is clear is the
  parameter \<open>run\<close>. (The reset of the scratch buffer is not part of this state.)
\<close>

definition eval :: "(bytecode \<Rightarrow> bytecode) \<Rightarrow> bytecode \<Rightarrow> bytecode" where
  "eval run bc = (if err bc = bcerrNone then run bc else bc)"

text \<open>\<open>setvmrefB\<close>: the register is zeroed, then the first \<open>min(bcLaneCount, len(src))\<close>
  lanes are filled.\<close>

definition setvmrefB :: "vmref list \<Rightarrow> bRegData" where
  "setvmrefB src =
     \<lparr>b_offsets = (\<lambda>i. if i < min bcLaneCount (length src) then fst (src ! i) else 0),
      b_sizes = (\<lambda>i. if i < min bcLaneCount (length src) then snd (src ! i) else 0)\<rparr>"

text \<open>
  The statement \<open>for l := range bc.auxvals { bc.auxvals[l][j] = bc.auxvals[l][src] }\<close>;
  \<open>None\<close> when an index is out of range (a panic).
\<close>

definition move_aux :: "nat \<Rightarrow> nat \<Rightarrow> vmref list list \<Rightarrow> vmref list list option" where
  "move_aux j src aux =
     (if list_all (\<lambda>col. src < length col \<and> j < length col) aux
      then Some (map (\<lambda>col. col[j := col ! src]) aux) else None)"

subsection \<open>Filter\<close>

definition evalfiltergolanes ::
  "(bytecode \<Rightarrow> bytecode) \<Rightarrow> bytecode \<Rightarrow> vmref list \<Rightarrow> (bytecode \<times> 16 word) option" where
  "evalfiltergolanes run bc dl =
     (if length dl > bcLaneCount then None
      else
        let msk = drop_bit (bcLaneCount - length dl) (0xffff :: 16 word);
            bc1 = bc\<lparr>vmState := (vmState bc)\<lparr>delims := setvmrefB dl\<rparr>\<rparr>;
            bc2 = bc1\<lparr>vmState := (vmState bc1)\<lparr>validLanes := (validLanes (vmState bc1))\<lparr>mask := msk\<rparr>\<rparr>\<rparr>;
            bc3 = bc2\<lparr>vmState := (vmState bc2)\<lparr>outputLanes := (outputLanes (vmState bc2))\<lparr>mask := 0\<rparr>\<rparr>\<rparr>;
            bc4 = eval run bc3
        in if err bc4 \<noteq> bcerrNone then Some (bc4, 0)
           else Some (bc4, mask (outputLanes (vmState bc4))))"

text \<open>
  The compression loop of one batch, over the lanes \<open>k\<close> of \<open>next\<close>. \<open>next\<close> is the slice
  \<open>delims[i : i + len(next)]\<close>, so \<open>next[k]\<close> is the current \<open>delims[i + k]\<close>. The state is
  the aux columns, the delimiters, the write position \<open>j\<close> and the shifted mask.
\<close>

fun compress ::
  "nat \<Rightarrow> nat \<Rightarrow> nat list \<Rightarrow> vmref list list \<times> vmref list \<times> nat \<times> 16 word \<Rightarrow>
   (vmref list list \<times> vmref list \<times> nat \<times> 16 word) option" where
  "compress apos i [] st = Some st"
| "compress apos i (k # ks) (aux, dl, j, msk) =
     (if msk = 0 then Some (aux, dl, j, msk)
      else if msk AND 1 \<noteq> 0 then
        (case move_aux j (apos + k) aux of
           None \<Rightarrow> None
         | Some aux' \<Rightarrow>
             if j < length dl \<and> i + k < length dl
             then compress apos i ks (aux', dl[j := dl ! (i + k)], Suc j, drop_bit 1 msk)
             else None)
      else compress apos i ks (aux, dl, j, drop_bit 1 msk))"

lemma move_aux_length: "move_aux j src aux = Some aux' \<Longrightarrow> map length aux' = map length aux"
  by (auto simp: move_aux_def split: if_splits)

lemma compress_length:
  "compress apos i ks (aux, dl, j, msk) = Some (aux', dl', j', msk') \<Longrightarrow>
   length dl' = length dl \<and> map length aux' = map length aux"
proof (induction ks arbitrary: aux dl j msk)
  case Nil
  then show ?case by simp
next
  case (Cons k ks)
  then show ?case
    by (fastforce split: if_splits option.splits dest: move_aux_length)
qed

text \<open>\<open>evalfiltergo\<close>: the loop over the batches, from the state \<open>(i, j)\<close>. The result is the VM
  state, the delimiters and the count \<open>j\<close>.\<close>

function evalfiltergo_loop ::
  "(bytecode \<Rightarrow> bytecode) \<Rightarrow> bytecode \<Rightarrow> vmref list \<Rightarrow> nat \<Rightarrow> nat \<Rightarrow>
   (bytecode \<times> vmref list \<times> nat) option" where
  "evalfiltergo_loop run bc dl i j =
     (if i < length dl then
        (let next = take (min (length dl - i) bcLaneCount) (drop i dl);
             apos = auxpos bc
         in case evalfiltergolanes run bc next of
              None \<Rightarrow> None
            | Some (bc1, msk) \<Rightarrow>
                if err bc1 \<noteq> bcerrNone then Some (bc1, dl, j)
                else
                  (case compress apos i [0..<length next] (auxvals bc1, dl, j, msk) of
                     None \<Rightarrow> None
                   | Some (aux', dl', j', msk') \<Rightarrow>
                       evalfiltergo_loop run (bc1\<lparr>auxvals := aux'\<rparr>) dl' (i + length next) j'))
      else Some (bc, dl, j))"
  by pat_completeness auto
termination
proof (relation "measure (\<lambda>(run, bc, dl, i, j). length dl - i)", goal_cases)
  case 1
  then show ?case by simp
next
  case (2 run bc dl i j nxt apos x2 bc1 msk x2a aux' y dl' z j' msk')
  then show ?case
    by (auto simp: bcLaneCount_def dest!: compress_length)
qed

declare evalfiltergo_loop.simps [simp del]

definition evalfiltergo ::
  "(bytecode \<Rightarrow> bytecode) \<Rightarrow> bytecode \<Rightarrow> vmref list \<Rightarrow> (bytecode \<times> vmref list \<times> nat) option" where
  "evalfiltergo run bc dl = evalfiltergo_loop run bc dl 0 0"

subsection \<open>Dedup\<close>

text \<open>
  Modelled from the spec: \<open>radixTree64\<close> is not among the sources. The driver only calls
  \<open>tree.Offset(h)\<close>, which is non-negative exactly when the tree holds the hash \<open>h\<close> (the
  source's comment: "lane not active or tree contains hash already"); a tree is given by
  that function.
\<close>

type_synonym radixTree64 = "64 word \<Rightarrow> int"

text \<open>The lane loop of one batch. \<open>indelims\<close> is the slice \<open>delims[p:]\<close>, so \<open>indelims[i]\<close> is
  the current \<open>delims[p + i]\<close>.\<close>

fun dedup_lanes ::
  "radixTree64 \<Rightarrow> hRegData \<Rightarrow> 16 word \<Rightarrow> nat \<Rightarrow> nat \<Rightarrow> nat list \<Rightarrow>
   vmref list list \<times> vmref list \<times> 64 word list \<times> nat \<Rightarrow>
   (vmref list list \<times> vmref list \<times> 64 word list \<times> nat) option" where
  "dedup_lanes tree outhashes outmask apos p [] st = Some st"
| "dedup_lanes tree outhashes outmask apos p (i # is) (aux, dl, hashes, dout) =
     (if outmask AND lanebit i = 0 \<or> tree (h_lo outhashes i) \<ge> 0
      then dedup_lanes tree outhashes outmask apos p is (aux, dl, hashes, dout)
      else if dout < length dl \<and> p + i < length dl \<and> dout < length hashes then
        (case move_aux dout (apos + i) aux of
           None \<Rightarrow> None
         | Some aux' \<Rightarrow>
             dedup_lanes tree outhashes outmask apos p is
               (aux', dl[dout := dl ! (p + i)], hashes[dout := h_lo outhashes i], Suc dout))
      else None)"

lemma dedup_lanes_length:
  "dedup_lanes tree oh om apos p is (aux, dl, hashes, dout) = Some (aux', dl', hashes', dout') \<Longrightarrow>
   length dl' = length dl \<and> length hashes' = length hashes \<and> map length aux' = map length aux"
proof (induction "is" arbitrary: aux dl hashes dout)
  case Nil
  then show ?case by simp
next
  case (Cons i "is")
  then show ?case
    by (fastforce split: if_splits option.splits dest: move_aux_length)
qed

text \<open>\<open>evaldedupgo\<close>: the loop over the batches, with \<open>indelims = delims[p:]\<close>. The result is
  the VM state, the delimiters, the hashes and the returned count.\<close>

function evaldedupgo_loop ::
  "(bytecode \<Rightarrow> bytecode) \<Rightarrow> radixTree64 \<Rightarrow> nat \<Rightarrow> bytecode \<Rightarrow> vmref list \<Rightarrow> 64 word list \<Rightarrow>
   nat \<Rightarrow> nat \<Rightarrow> (bytecode \<times> vmref list \<times> 64 word list \<times> nat) option" where
  "evaldedupgo_loop run tree slot bc dl hashes p dout =
     (if p < length dl then
        (let n = min (length dl - p) bcLaneCount;
             msk = (if n < bcLaneCount then drop_bit (bcLaneCount - n) (0xffff :: 16 word) else 0xffff);
             bc1 = bc\<lparr>vmState := (vmState bc)\<lparr>delims := setvmrefB (take n (drop p dl))\<rparr>\<rparr>;
             bc2 = bc1\<lparr>vmState := (vmState bc1)\<lparr>validLanes := (validLanes (vmState bc1))\<lparr>mask := msk\<rparr>\<rparr>\<rparr>;
             bc3 = bc2\<lparr>vmState := (vmState bc2)\<lparr>outputLanes := (outputLanes (vmState bc2))\<lparr>mask := 0\<rparr>\<rparr>\<rparr>;
             apos = auxpos bc3;
             bc4 = eval run bc3
         in if err bc4 \<noteq> bcerrNone then Some (bc4, dl, hashes, 0)
            else
              (case dedup_lanes tree (hslots bc4 slot) (mask (outputLanes (vmState bc4))) apos p
                      [0..<n] (auxvals bc4, dl, hashes, dout) of
                 None \<Rightarrow> None
               | Some (aux', dl', hashes', dout') \<Rightarrow>
                   evaldedupgo_loop run tree slot (bc4\<lparr>auxvals := aux'\<rparr>) dl' hashes' (p + n) dout'))
      else Some (bc, dl, hashes, dout))"
  by pat_completeness auto
termination
proof (relation "measure (\<lambda>(run, tree, slot, bc, dl, hashes, p, dout). length dl - p)", goal_cases)
  case 1
  then show ?case by simp
next
  case (2 run tree slot bc dl hashes p dout n msk bc1 bc2 bc3 apos bc4 x2 aux' y dl' z hashes' dout')
  then show ?case
    by (auto simp: bcLaneCount_def dest!: dedup_lanes_length)
qed

declare evaldedupgo_loop.simps [simp del]

definition evaldedupgo ::
  "(bytecode \<Rightarrow> bytecode) \<Rightarrow> radixTree64 \<Rightarrow> nat \<Rightarrow> bytecode \<Rightarrow> vmref list \<Rightarrow> 64 word list \<Rightarrow>
   (bytecode \<times> vmref list \<times> 64 word list \<times> nat) option" where
  "evaldedupgo run tree slot bc dl hashes = evaldedupgo_loop run tree slot bc dl hashes 0 0"

subsection \<open>Programs that decide each row on its own\<close>

text \<open>The delimiter that lane \<open>k\<close> holds on entry, and the row of the aux columns that lane
  \<open>k\<close> stands for (the cursor \<open>auxpos\<close> plus the lane).\<close>

definition lane_delim :: "bytecode \<Rightarrow> nat \<Rightarrow> vmref" where
  "lane_delim bc k = (b_offsets (delims (vmState bc)) k, b_sizes (delims (vmState bc)) k)"

definition aux_row :: "bytecode \<Rightarrow> nat \<Rightarrow> vmref list" where
  "aux_row bc k = map (\<lambda>col. col ! (auxpos bc + k)) (auxvals bc)"

text \<open>
  A program decides each row on its own by \<open>P\<close> when, started without an error, it ends
  without one, leaves the aux columns alone, advances \<open>auxpos\<close> by the number of valid lanes
  (as every terminal opcode does) and sets the output bit of a lane exactly when the lane is
  valid and \<open>P\<close> holds of the lane's delimiter and aux row. It hashes each row by \<open>H\<close> into
  \<open>slot\<close> when the low half of the hash register at \<open>slot\<close> holds \<open>H\<close> of the row in every
  valid lane.
\<close>

definition lane_program :: "(bytecode \<Rightarrow> bytecode) \<Rightarrow> (vmref \<Rightarrow> vmref list \<Rightarrow> bool) \<Rightarrow> bool" where
  "lane_program run P \<longleftrightarrow>
     (\<forall>bc. err bc = bcerrNone \<longrightarrow>
        err (run bc) = bcerrNone \<and> auxvals (run bc) = auxvals bc \<and>
        auxpos (run bc) = auxpos bc + OnesCount16 (mask (validLanes (vmState bc))) \<and>
        (\<forall>k<bcLaneCount. bit (mask (outputLanes (vmState (run bc)))) k \<longleftrightarrow>
           bit (mask (validLanes (vmState bc))) k \<and> P (lane_delim bc k) (aux_row bc k)))"

definition hash_program ::
  "(bytecode \<Rightarrow> bytecode) \<Rightarrow> nat \<Rightarrow> (vmref \<Rightarrow> vmref list \<Rightarrow> 64 word) \<Rightarrow> bool" where
  "hash_program run slot H \<longleftrightarrow>
     (\<forall>bc. err bc = bcerrNone \<longrightarrow>
        (\<forall>k<bcLaneCount. bit (mask (validLanes (vmState bc))) k \<longrightarrow>
           h_lo (hslots (run bc) slot) k = H (lane_delim bc k) (aux_row bc k)))"

text \<open>What \<open>P\<close> and \<open>H\<close> say of row \<open>r\<close> of the input, with the cursor at \<open>a\<close> on entry; the
  rows of the input that \<open>P\<close> selects, in input order; and the rows a dedup pass is expected to
  keep: those the program selects and whose hash the tree does not hold.\<close>

definition row_sel :: "(vmref \<Rightarrow> vmref list \<Rightarrow> bool) \<Rightarrow> nat \<Rightarrow> vmref list \<Rightarrow> vmref list list \<Rightarrow> nat \<Rightarrow> bool" where
  "row_sel P a dl aux r = P (dl ! r) (map (\<lambda>col. col ! (a + r)) aux)"

definition row_hash :: "(vmref \<Rightarrow> vmref list \<Rightarrow> 64 word) \<Rightarrow> nat \<Rightarrow> vmref list \<Rightarrow> vmref list list \<Rightarrow> nat \<Rightarrow> 64 word" where
  "row_hash H a dl aux r = H (dl ! r) (map (\<lambda>col. col ! (a + r)) aux)"

definition kept_rows :: "(vmref \<Rightarrow> vmref list \<Rightarrow> bool) \<Rightarrow> nat \<Rightarrow> vmref list \<Rightarrow> vmref list list \<Rightarrow> nat list" where
  "kept_rows P a dl aux = filter (row_sel P a dl aux) [0..<length dl]"

definition fresh :: "(vmref \<Rightarrow> vmref list \<Rightarrow> bool) \<Rightarrow> (vmref \<Rightarrow> vmref list \<Rightarrow> 64 word) \<Rightarrow> radixTree64 \<Rightarrow>
    vmref \<Rightarrow> vmref list \<Rightarrow> bool" where
  "fresh P H tree d row \<longleftrightarrow> P d row \<and> tree (H d row) < 0"

text \<open>The invariants of the compaction loops (used in the proofs): after the rows below \<open>i\<close>,
  the first \<open>j\<close> entries of a column are the selected ones and the entries from \<open>a + i\<close> on
  are untouched.\<close>

definition keep_upto :: "(nat \<Rightarrow> bool) \<Rightarrow> nat \<Rightarrow> nat list" where
  "keep_upto sel i = filter sel [0..<i]"

definition col_inv :: "(nat \<Rightarrow> bool) \<Rightarrow> nat \<Rightarrow> nat \<Rightarrow> nat \<Rightarrow> 'a list \<Rightarrow> 'a list \<Rightarrow> bool" where
  "col_inv sel a i j col col0 \<longleftrightarrow>
     length col = length col0 \<and>
     take j col = map (\<lambda>r. col0 ! (a + r)) (keep_upto sel i) \<and>
     drop (a + i) col = drop (a + i) col0"

definition hash_inv :: "(nat \<Rightarrow> bool) \<Rightarrow> (nat \<Rightarrow> 64 word) \<Rightarrow> nat \<Rightarrow> nat \<Rightarrow> 64 word list \<Rightarrow> nat \<Rightarrow> bool" where
  "hash_inv sel hsh i j hashes n \<longleftrightarrow>
     length hashes = n \<and> take j hashes = map hsh (keep_upto sel i)"

definition batch_state :: "bytecode \<Rightarrow> vmref list \<Rightarrow> 16 word \<Rightarrow> bytecode" where
  "batch_state bc nxt msk =
     (let bc1 = bc\<lparr>vmState := (vmState bc)\<lparr>delims := setvmrefB nxt\<rparr>\<rparr>;
          bc2 = bc1\<lparr>vmState := (vmState bc1)\<lparr>validLanes := (validLanes (vmState bc1))\<lparr>mask := msk\<rparr>\<rparr>\<rparr>;
          bc3 = bc2\<lparr>vmState := (vmState bc2)\<lparr>outputLanes := (outputLanes (vmState bc2))\<lparr>mask := 0\<rparr>\<rparr>\<rparr>
      in bc3)"

text \<open>
  Two concrete programs. \<open>run_select P\<close> ends with \<open>ret.k\<close> on the mask of the valid lanes
  that \<open>P\<close> selects; \<open>run_hash P H slot\<close> also leaves \<open>H\<close> of each row in the hash register
  at \<open>slot\<close> and ends with \<open>ret.b.h.k\<close>.
\<close>

definition select_mask :: "(nat \<Rightarrow> bool) \<Rightarrow> 16 word" where
  "select_mask S = fold (\<lambda>k m. if S k then m OR lanebit k else m) [0..<bcLaneCount] 0"

definition lane_selected :: "(vmref \<Rightarrow> vmref list \<Rightarrow> bool) \<Rightarrow> bytecode \<Rightarrow> nat \<Rightarrow> bool" where
  "lane_selected P bc k \<longleftrightarrow>
     bit (mask (validLanes (vmState bc))) k \<and> P (lane_delim bc k) (aux_row bc k)"

definition run_select :: "(vmref \<Rightarrow> vmref list \<Rightarrow> bool) \<Rightarrow> bytecode \<Rightarrow> bytecode" where
  "run_select P bc = fst (bcretkgo bc 0 \<lparr>mask = select_mask (lane_selected P bc)\<rparr>)"

definition run_hash ::
  "(vmref \<Rightarrow> vmref list \<Rightarrow> bool) \<Rightarrow> (vmref \<Rightarrow> vmref list \<Rightarrow> 64 word) \<Rightarrow> nat \<Rightarrow> bytecode \<Rightarrow> bytecode" where
  "run_hash P H slot bc =
     (let bc1 = bc\<lparr>hslots := (hslots bc)(slot :=
                   \<lparr>h_lo = (\<lambda>k. H (lane_delim bc k) (aux_row bc k)), h_hi = (\<lambda>k. 0)\<rparr>)\<rparr>
      in fst (bcretbhkgo bc1 0 (delims (vmState bc1)) \<lparr>mask = select_mask (lane_selected P bc)\<rparr>))"

definition nonempty_row :: "vmref \<Rightarrow> vmref list \<Rightarrow> bool" where
  "nonempty_row d row \<longleftrightarrow> snd d \<noteq> 0"

definition any_row :: "vmref \<Rightarrow> vmref list \<Rightarrow> bool" where
  "any_row d row \<longleftrightarrow> True"

definition offset_hash :: "vmref \<Rightarrow> vmref list \<Rightarrow> 64 word" where
  "offset_hash d row = ucast (fst d)"

definition empty_tree :: radixTree64 where
  "empty_tree h = - 1"

definition tree_with_2 :: radixTree64 where
  "tree_with_2 h = (if h = 2 then 0 else - 1)"

definition rows5 :: "vmref list" where
  "rows5 = [(1, 10), (2, 10), (1, 11), (3, 10), (2, 11)]"

definition bc_aux :: "vmref list list \<Rightarrow> bytecode" where
  "bc_aux aux = bc_full\<lparr>auxvals := aux\<rparr>"

subsection \<open>Project\<close>

text \<open>
  \<open>syminfo\<close> is declared outside the sources at hand; the driver reads its three fields: the
  symbol, the register slot of the value and the size of the encoded symbol.
\<close>

record syminfo =
  sym_value :: nat
  sym_slot :: nat
  sym_size :: nat

definition getTLVSize :: "nat \<Rightarrow> nat" where
  "getTLVSize len =
     (if len < 14 then 1
      else if len < 2 ^ 7 then 2
      else if len < 2 ^ 14 then 3
      else if len < 2 ^ 21 then 4
      else if len < 2 ^ 28 then 5
      else 6)"

text \<open>
  Writing the bytes \<open>bs\<close> at \<open>dst[offset]\<close>, \<open>dst[offset+1]\<close>, ...: an index out of range is a
  panic (\<open>None\<close>).
\<close>

definition put_bytes :: "byte list \<Rightarrow> nat \<Rightarrow> byte list \<Rightarrow> byte list option" where
  "put_bytes dst offset bs =
     (if offset + length bs \<le> length dst
      then Some (take offset dst @ bs @ drop (offset + length bs) dst) else None)"

text \<open>The bytes that \<open>encodeSymbol\<close> writes for a symbol below \<open>1 << 28\<close>, in the order of the
  source's four cases.\<close>

definition encodeSymbol_bytes :: "nat \<Rightarrow> byte list" where
  "encodeSymbol_bytes symbol =
     (if symbol < 2 ^ 7 then [word_of_nat symbol OR 0x80]
      else if symbol < 2 ^ 14 then
        [word_of_nat (drop_bit 7 symbol AND 0x7F), word_of_nat (symbol AND 0xFF) OR 0x80]
      else if symbol < 2 ^ 21 then
        [word_of_nat (drop_bit 14 symbol AND 0x7F), word_of_nat (drop_bit 7 symbol AND 0x7F),
         word_of_nat (symbol AND 0xFF) OR 0x80]
      else
        [word_of_nat (drop_bit 21 symbol AND 0x7F), word_of_nat (drop_bit 14 symbol AND 0x7F),
         word_of_nat (drop_bit 7 symbol AND 0x7F), word_of_nat (symbol AND 0xFF) OR 0x80])"

text \<open>\<open>encodeSymbol\<close>: the buffer after the writes and the number of bytes written; \<open>None\<close> for
  the panic on a symbol of \<open>1 << 28\<close> or more, or on an index out of range.\<close>

definition encodeSymbol :: "byte list \<Rightarrow> nat \<Rightarrow> nat \<Rightarrow> (byte list \<times> nat) option" where
  "encodeSymbol dst offset symbol =
     (if symbol < 2 ^ 28 then
        (case put_bytes dst offset (encodeSymbol_bytes symbol) of
           None \<Rightarrow> None
         | Some dst' \<Rightarrow> Some (dst', length (encodeSymbol_bytes symbol)))
      else None)"

text \<open>The bytes that \<open>encodeTLVUnsafe\<close> writes for a length below \<open>1 << 28\<close>.\<close>

definition encodeTLVUnsafe_bytes :: "byte \<Rightarrow> nat \<Rightarrow> byte list" where
  "encodeTLVUnsafe_bytes valueType len =
     (let tag = push_bit 4 valueType in
      if len < 14 then [tag OR word_of_nat len]
      else if len < 2 ^ 7 then [tag OR 0xE, word_of_nat len OR 0x80]
      else if len < 2 ^ 14 then
        [tag OR 0xE, word_of_nat (drop_bit 7 len AND 0x7F), word_of_nat (len AND 0xFF) OR 0x80]
      else if len < 2 ^ 21 then
        [tag OR 0xE, word_of_nat (drop_bit 14 len AND 0x7F), word_of_nat (drop_bit 7 len AND 0x7F),
         word_of_nat (len AND 0xFF) OR 0x80]
      else
        [tag OR 0xE, word_of_nat (drop_bit 21 len AND 0x7F), word_of_nat (drop_bit 14 len AND 0x7F),
         word_of_nat (drop_bit 7 len AND 0x7F), word_of_nat (len AND 0xFF) OR 0x80])"

definition encodeTLVUnsafe :: "byte list \<Rightarrow> nat \<Rightarrow> byte \<Rightarrow> nat \<Rightarrow> (byte list \<times> nat) option" where
  "encodeTLVUnsafe dst offset valueType len =
     (if len < 2 ^ 28 then
        (case put_bytes dst offset (encodeTLVUnsafe_bytes valueType len) of
           None \<Rightarrow> None
         | Some dst' \<Rightarrow> Some (dst', length (encodeTLVUnsafe_bytes valueType len)))
      else None)"

text \<open>\<open>copy(dst[offset:], src)\<close>: the slice \<open>dst[offset:]\<close> panics when \<open>offset\<close> is past the end;
  \<open>copy\<close> moves as many bytes as both slices hold and returns their number.\<close>

definition copy_into :: "byte list \<Rightarrow> nat \<Rightarrow> byte list \<Rightarrow> (byte list \<times> nat) option" where
  "copy_into dst offset src =
     (if offset \<le> length dst then
        (let n = min (length dst - offset) (length src)
         in Some (take offset dst @ take n src @ drop (offset + n) dst, n))
      else None)"

text \<open>What the lanes of a batch can end in: every struct is written, or the buffer cannot
  hold the struct of some lane (the driver returns; what the earlier lanes of the batch wrote
  stays in the buffer and in the delimiters), or Go panics.\<close>

datatype 'a emit = Emitted 'a | BufferFull 'a | Panicked

text \<open>The first loop over the items: the content size of the lane's struct.\<close>

definition item_present :: "bytecode \<Rightarrow> nat \<Rightarrow> syminfo \<Rightarrow> bool" where
  "item_present bc lane s \<longleftrightarrow> sym_size s \<noteq> 0 \<and> v_sizes (vslots bc (sym_slot s)) lane \<noteq> 0"

definition content_size :: "bytecode \<Rightarrow> syminfo list \<Rightarrow> nat \<Rightarrow> nat" where
  "content_size bc symbols lane =
     fold (\<lambda>s contentSize.
             if item_present bc lane s
             then contentSize + (sym_size s + unat (v_sizes (vslots bc (sym_slot s)) lane))
             else contentSize) symbols 0"

text \<open>The second loop over the items: label and value of every item that is present; \<open>None\<close>
  is a panic.\<close>

fun write_items ::
  "byte list \<Rightarrow> bytecode \<Rightarrow> nat \<Rightarrow> syminfo list \<Rightarrow> byte list \<times> nat \<Rightarrow> (byte list \<times> nat) option" where
  "write_items vmm bc lane [] st = Some st"
| "write_items vmm bc lane (s # ss) (dst, offset) =
     (if item_present bc lane s then
        (let valOffset = v_offsets (vslots bc (sym_slot s)) lane;
             valLength = v_sizes (vslots bc (sym_slot s)) lane
         in case encodeSymbol dst offset (sym_value s) of
              None \<Rightarrow> None
            | Some (dst1, k) \<Rightarrow>
                (case vmref_mem vmm (valOffset, valLength) of
                   None \<Rightarrow> None
                 | Some src \<Rightarrow>
                     (case copy_into dst1 (offset + k) src of
                        None \<Rightarrow> None
                      | Some (dst2, c) \<Rightarrow> write_items vmm bc lane ss (dst2, offset + k + c))))
      else write_items vmm bc lane ss (dst, offset))"

text \<open>
  The loop over the lanes of one batch, after \<open>eval\<close>. The state is the output buffer, the
  delimiters and the write offset. \<open>uint(capacity - offset)\<close> is huge when \<open>offset\<close> is past
  the capacity, so the test for a full buffer then fails.
\<close>

fun project_lanes ::
  "byte list \<Rightarrow> bytecode \<Rightarrow> syminfo list \<Rightarrow> 32 word \<Rightarrow> nat \<Rightarrow> 16 word \<Rightarrow> nat \<Rightarrow> nat list \<Rightarrow>
   byte list \<times> vmref list \<times> nat \<Rightarrow> (byte list \<times> vmref list \<times> nat) emit" where
  "project_lanes vmm bc symbols dstDisp capacity msk rowsProcessed [] st = Emitted st"
| "project_lanes vmm bc symbols dstDisp capacity msk rowsProcessed (lane # lanes) (dst, dl, offset) =
     (if msk AND push_bit lane 1 = 0
      then project_lanes vmm bc symbols dstDisp capacity msk rowsProcessed lanes (dst, dl, offset)
      else
        (let contentSize = content_size bc symbols lane;
             headerSize = getTLVSize contentSize;
             structSize = headerSize + contentSize
         in if offset \<le> capacity \<and> capacity - offset < structSize then BufferFull (dst, dl, offset)
            else case encodeTLVUnsafe dst offset StructType contentSize of
              None \<Rightarrow> Panicked
            | Some (dst1, h) \<Rightarrow>
                if rowsProcessed + lane < length dl then
                  (case write_items vmm bc lane symbols (dst1, offset + h) of
                     Some (dst2, offset2) \<Rightarrow>
                       project_lanes vmm bc symbols dstDisp capacity msk rowsProcessed lanes
                         (dst2,
                          dl[rowsProcessed + lane :=
                               (dstDisp + word_of_nat (offset + h), word_of_nat contentSize)],
                          offset2)
                   | None \<Rightarrow> Panicked)
                else Panicked))"

lemma project_lanes_length:
  "project_lanes vmm bc symbols dstDisp capacity msk rp lanes (dst, dl, offset) = Emitted (dst', dl', offset')
   \<Longrightarrow> length dl' = length dl"
proof (induction lanes arbitrary: dst dl offset)
  case Nil
  then show ?case by simp
next
  case (Cons lane lanes)
  then show ?case
    by (fastforce simp: Let_def split: if_splits option.splits emit.splits)
qed

text \<open>The lanes of the delimiter register that the driver loads before \<open>eval\<close>; the other
  lanes keep what they held.\<close>

definition load_delims :: "bRegData \<Rightarrow> vmref list \<Rightarrow> nat \<Rightarrow> nat \<Rightarrow> bRegData" where
  "load_delims b dl rowsProcessed n =
     \<lparr>b_offsets = (\<lambda>lane. if lane < n then fst (dl ! (rowsProcessed + lane)) else b_offsets b lane),
      b_sizes = (\<lambda>lane. if lane < n then snd (dl ! (rowsProcessed + lane)) else b_sizes b lane)\<rparr>"

text \<open>
  \<open>evalprojectgo\<close>: the loop over the batches from the state \<open>(offset, rowsProcessed)\<close>. The
  result is the VM state, the delimiters, the output buffer and the two returned numbers;
  \<open>None\<close> is a panic.
\<close>

function evalprojectgo_loop ::
  "(bytecode \<Rightarrow> bytecode) \<Rightarrow> byte list \<Rightarrow> syminfo list \<Rightarrow> 32 word \<Rightarrow> bytecode \<Rightarrow> vmref list \<Rightarrow>
   byte list \<Rightarrow> nat \<Rightarrow> nat \<Rightarrow> (bytecode \<times> vmref list \<times> byte list \<times> nat \<times> nat) option" where
  "evalprojectgo_loop run vmm symbols dstDisp bc dl dst offset rowsProcessed =
     (if rowsProcessed < length dl then
        (let initialDstLength = offset;
             n = min (length dl - rowsProcessed) bcLaneCount;
             bc1 = bc\<lparr>vmState := (vmState bc)\<lparr>delims :=
                     load_delims (delims (vmState bc)) dl rowsProcessed n\<rparr>\<rparr>;
             msk = push_bit n (1 :: 16 word) - 1;
             bc2 = bc1\<lparr>err := bcerrNone\<rparr>;
             bc3 = bc2\<lparr>vmState := (vmState bc2)\<lparr>validLanes := (validLanes (vmState bc2))\<lparr>mask := msk\<rparr>\<rparr>\<rparr>;
             bc4 = eval run bc3
         in if err bc4 \<noteq> bcerrNone then Some (bc4, dl, dst, initialDstLength, rowsProcessed)
            else
              (case project_lanes vmm bc4 symbols dstDisp (length dst)
                      (mask (outputLanes (vmState bc4))) rowsProcessed [0..<n] (dst, dl, offset) of
                 Panicked \<Rightarrow> None
               | BufferFull (dst', dl', offset') \<Rightarrow>
                   Some (bc4, dl', dst', initialDstLength, rowsProcessed)
               | Emitted (dst', dl', offset') \<Rightarrow>
                   evalprojectgo_loop run vmm symbols dstDisp bc4 dl' dst' offset' (rowsProcessed + n)))
      else Some (bc, dl, dst, offset, rowsProcessed))"
  by pat_completeness auto
termination
proof (relation "measure (\<lambda>(run, vmm, symbols, dstDisp, bc, dl, dst, offset, rp). length dl - rp)", goal_cases)
  case 1
  then show ?case by simp
next
  case (2 run vmm symbols dstDisp bc dl dst offset rp initialDstLength n bc1 msk bc2 bc3 bc4 x1 dst' y dl' offset')
  then show ?case
    by (auto simp: bcLaneCount_def dest!: project_lanes_length)
qed

declare evalprojectgo_loop.simps [simp del]

text \<open>\<open>vmdispl(dst)\<close> is the displacement of the output buffer in the VM's memory, or fails;
  it enters as the optional displacement.\<close>

definition evalprojectgo ::
  "(bytecode \<Rightarrow> bytecode) \<Rightarrow> byte list \<Rightarrow> syminfo list \<Rightarrow> 32 word option \<Rightarrow> bytecode \<Rightarrow> vmref list \<Rightarrow>
   byte list \<Rightarrow> (bytecode \<times> vmref list \<times> byte list \<times> nat \<times> nat) option" where
  "evalprojectgo run vmm symbols vmdispl bc dl dst =
     (case vmdispl of
        None \<Rightarrow> Some (bc, dl, dst, 0, 0)
      | Some dstDisp \<Rightarrow> evalprojectgo_loop run vmm symbols dstDisp bc dl dst 0 0)"

subsection \<open>What the projection is expected to emit\<close>

text \<open>
  A program computes the values of each row on its own by \<open>V\<close> when, in every valid lane and
  for every slot, the value register at the slot holds the reference \<open>V slot\<close> gives for the
  lane's delimiter and aux row.
\<close>

definition value_program ::
  "(bytecode \<Rightarrow> bytecode) \<Rightarrow> (nat \<Rightarrow> vmref \<Rightarrow> vmref list \<Rightarrow> vmref) \<Rightarrow> bool" where
  "value_program run V \<longleftrightarrow>
     (\<forall>bc. err bc = bcerrNone \<longrightarrow>
        (\<forall>k<bcLaneCount. bit (mask (validLanes (vmState bc))) k \<longrightarrow>
           (\<forall>slot. (v_offsets (vslots (run bc) slot) k, v_sizes (vslots (run bc) slot) k) =
                    V slot (lane_delim bc k) (aux_row bc k))))"

definition row_val ::
  "(nat \<Rightarrow> vmref \<Rightarrow> vmref list \<Rightarrow> vmref) \<Rightarrow> nat \<Rightarrow> vmref list \<Rightarrow> vmref list list \<Rightarrow> nat \<Rightarrow> nat \<Rightarrow> vmref" where
  "row_val V a dl aux r slot = V slot (dl ! r) (map (\<lambda>col. col ! (a + r)) aux)"

text \<open>The bytes a reference spans.\<close>

definition mem_bytes :: "byte list \<Rightarrow> vmref \<Rightarrow> byte list" where
  "mem_bytes vmm r = take (unat (snd r)) (drop (unat (fst r)) vmm)"

text \<open>
  The struct of a row whose value at each slot is \<open>vals slot\<close>: the items whose value is not
  MISSING (length zero), each as the encoded symbol followed by the bytes of the value, in
  the order of the projection list, behind a struct header that carries the length of this
  content.
\<close>

definition items_bytes :: "byte list \<Rightarrow> syminfo list \<Rightarrow> (nat \<Rightarrow> vmref) \<Rightarrow> byte list" where
  "items_bytes vmm symbols vals =
     concat (map (\<lambda>s. encodeSymbol_bytes (sym_value s) @ mem_bytes vmm (vals (sym_slot s)))
               (filter (\<lambda>s. snd (vals (sym_slot s)) \<noteq> 0) symbols))"

definition struct_bytes :: "byte list \<Rightarrow> syminfo list \<Rightarrow> (nat \<Rightarrow> vmref) \<Rightarrow> byte list" where
  "struct_bytes vmm symbols vals =
     encodeTLVUnsafe_bytes StructType (length (items_bytes vmm symbols vals)) @
     items_bytes vmm symbols vals"

text \<open>
  How far the driver gets: \<open>sz r\<close> is the number of bytes row \<open>r\<close> emits. From the offset
  \<open>off\<close> and the row \<open>rp\<close> at the start of a batch, a batch whose rows fit in the \<open>cap\<close> bytes
  of the buffer is written and the next one tried; the first batch that does not fit ends the
  pass at the offset and the row where that batch began.
\<close>

function project_extent :: "(nat \<Rightarrow> nat) \<Rightarrow> nat \<Rightarrow> nat \<Rightarrow> nat \<Rightarrow> nat \<Rightarrow> nat \<times> nat" where
  "project_extent sz n cap off rp =
     (if rp < n then
        (let b = min (n - rp) bcLaneCount; tot = sum_list (map sz [rp..<rp + b])
         in if off + tot \<le> cap then project_extent sz n cap (off + tot) (rp + b) else (off, rp))
      else (off, rp))"
  by pat_completeness auto
termination
  by (relation "measure (\<lambda>(sz, n, cap, off, rp). n - rp)") (auto simp: bcLaneCount_def)

declare project_extent.simps [simp del]

text \<open>The rows below \<open>rp\<close> that \<open>P\<close> selects, their structs in a row, and the size of the struct
  of a row (nothing for a row that is not selected).\<close>

definition emitted_bytes ::
  "byte list \<Rightarrow> syminfo list \<Rightarrow> (vmref \<Rightarrow> vmref list \<Rightarrow> bool) \<Rightarrow> (nat \<Rightarrow> vmref \<Rightarrow> vmref list \<Rightarrow> vmref) \<Rightarrow>
   nat \<Rightarrow> vmref list \<Rightarrow> vmref list list \<Rightarrow> nat \<Rightarrow> byte list" where
  "emitted_bytes vmm symbols P V a dl aux rp =
     concat (map (\<lambda>r. struct_bytes vmm symbols (row_val V a dl aux r))
               (filter (row_sel P a dl aux) [0..<rp]))"

definition row_size ::
  "byte list \<Rightarrow> syminfo list \<Rightarrow> (vmref \<Rightarrow> vmref list \<Rightarrow> bool) \<Rightarrow> (nat \<Rightarrow> vmref \<Rightarrow> vmref list \<Rightarrow> vmref) \<Rightarrow>
   nat \<Rightarrow> vmref list \<Rightarrow> vmref list list \<Rightarrow> nat \<Rightarrow> nat" where
  "row_size vmm symbols P V a dl aux r =
     (if row_sel P a dl aux r then length (struct_bytes vmm symbols (row_val V a dl aux r)) else 0)"

text \<open>A concrete projection program: \<open>run_values P V\<close> leaves the reference \<open>V slot\<close> of each
  row in the value register at every slot and ends with \<open>ret.k\<close> on the lanes \<open>P\<close> selects.\<close>

definition run_values ::
  "(vmref \<Rightarrow> vmref list \<Rightarrow> bool) \<Rightarrow> (nat \<Rightarrow> vmref \<Rightarrow> vmref list \<Rightarrow> vmref) \<Rightarrow> bytecode \<Rightarrow> bytecode" where
  "run_values P V bc =
     (let bc1 = bc\<lparr>vslots := (\<lambda>slot.
                   \<lparr>v_offsets = (\<lambda>k. fst (V slot (lane_delim bc k) (aux_row bc k))),
                    v_sizes = (\<lambda>k. snd (V slot (lane_delim bc k) (aux_row bc k))),
                    v_typeL = (\<lambda>k. 0), v_headerSize = (\<lambda>k. 0)\<rparr>)\<rparr>
      in fst (bcretkgo bc1 0 \<lparr>mask = select_mask (lane_selected P bc)\<rparr>))"

text \<open>Scenario 4 of the spec: the row \<open>{a: 1}\<close>, projected on \<open>a\<close> (symbol 10, slot 0) and
  \<open>b\<close> (symbol 11, slot 1); the value of \<open>a\<close> is the two bytes of the integer 1, the value of
  \<open>b\<close> is MISSING.\<close>

definition only_slot0 :: "nat \<Rightarrow> vmref \<Rightarrow> vmref list \<Rightarrow> vmref" where
  "only_slot0 slot d row = (if slot = 0 then (0, 2) else (0, 0))"

definition items_a_b :: "syminfo list" where
  "items_a_b = [\<lparr>sym_value = 10, sym_slot = 0, sym_size = 1\<rparr>,
                \<lparr>sym_value = 11, sym_slot = 1, sym_size = 1\<rparr>]"

text \<open>The projection loop reads a lane's values through this view (used in the proofs), and
  the VM state on which a batch is evaluated.\<close>

definition lane_vals :: "bytecode \<Rightarrow> nat \<Rightarrow> nat \<Rightarrow> vmref" where
  "lane_vals bc lane slot = (v_offsets (vslots bc slot) lane, v_sizes (vslots bc slot) lane)"

definition project_state :: "bytecode \<Rightarrow> vmref list \<Rightarrow> nat \<Rightarrow> nat \<Rightarrow> bytecode" where
  "project_state bc dl rp n =
     (let bc1 = bc\<lparr>vmState := (vmState bc)\<lparr>delims :=
                     load_delims (delims (vmState bc)) dl rp n\<rparr>\<rparr>;
          msk = push_bit n (1 :: 16 word) - 1;
          bc2 = bc1\<lparr>err := bcerrNone\<rparr>;
          bc3 = bc2\<lparr>vmState := (vmState bc2)\<lparr>validLanes := (validLanes (vmState bc2))\<lparr>mask := msk\<rparr>\<rparr>\<rparr>
      in bc3)"

section \<open>Terminal opcodes and the aux cursor\<close>

lemma OnesCount16_0: "OnesCount16 0 = 0"
  by (simp add: OnesCount16_def)

lemma OnesCount16_ffff: "OnesCount16 0xffff = 16"
  by (simp add: OnesCount16_def upt_rec bit_numeral_rec)

text \<open>
  C7, as stated, fails: \<open>ret.k\<close> with an empty output mask on a full batch advances
  \<open>auxpos\<close> by the 16 valid lanes, not by the 0 set bits of the output mask it establishes.
\<close>

theorem bcretkgo_auxpos_counterexample:
  "mask (outputLanes (vmState (fst (bcretkgo bc_full 0 \<lparr>mask = 0\<rparr>)))) = 0 \<and>
   auxpos (fst (bcretkgo bc_full 0 \<lparr>mask = 0\<rparr>)) = 16 \<and>
   auxpos (fst (bcretkgo bc_full 0 \<lparr>mask = 0\<rparr>)) \<noteq>
     auxpos bc_full + OnesCount16 (mask (outputLanes (vmState (fst (bcretkgo bc_full 0 \<lparr>mask = 0\<rparr>)))))"
  by (simp add: bcretkgo_def bc_full_def Let_def OnesCount16_0 OnesCount16_ffff)

text \<open>
  C7, amended: every terminal opcode writes its operands into the output slots of the VM
  (the output mask; the delimiters for \<open>ret.b.k\<close> and \<open>ret.b.h.k\<close>; the string register
  for \<open>ret.s.k\<close>); \<open>ret\<close> makes the valid-lanes mask the output mask and clears the error;
  and every one of them advances \<open>auxpos\<close> by the number of set bits of the valid-lanes
  mask (which for \<open>ret\<close> is also the output mask).
\<close>

theorem ret_opcodes_output_and_auxpos:
  "mask (outputLanes (vmState (fst (bcretgo bc pc)))) = mask (validLanes (vmState bc)) \<and>
   err (fst (bcretgo bc pc)) = bcerrNone \<and>
   auxpos (fst (bcretgo bc pc)) =
     auxpos bc + OnesCount16 (mask (outputLanes (vmState (fst (bcretgo bc pc))))) \<and>
   auxpos (fst (bcretgo bc pc)) = auxpos bc + OnesCount16 (mask (validLanes (vmState bc))) \<and>
   mask (outputLanes (vmState (fst (bcretkgo bc pc k)))) = mask k \<and>
   auxpos (fst (bcretkgo bc pc k)) = auxpos bc + OnesCount16 (mask (validLanes (vmState bc))) \<and>
   mask (outputLanes (vmState (fst (bcretbkgo bc pc b k)))) = mask k \<and>
   b_offsets (delims (vmState (fst (bcretbkgo bc pc b k)))) = b_offsets b \<and>
   b_sizes (delims (vmState (fst (bcretbkgo bc pc b k)))) = b_sizes b \<and>
   auxpos (fst (bcretbkgo bc pc b k)) = auxpos bc + OnesCount16 (mask (validLanes (vmState bc))) \<and>
   mask (outputLanes (vmState (fst (bcretbhkgo bc pc b k)))) = mask k \<and>
   b_offsets (delims (vmState (fst (bcretbhkgo bc pc b k)))) = b_offsets b \<and>
   b_sizes (delims (vmState (fst (bcretbhkgo bc pc b k)))) = b_sizes b \<and>
   auxpos (fst (bcretbhkgo bc pc b k)) = auxpos bc + OnesCount16 (mask (validLanes (vmState bc))) \<and>
   outputLanes (vmState (fst (bcretskgo bc pc s k))) = k \<and>
   sreg (vmState (fst (bcretskgo bc pc s k))) = s \<and>
   auxpos (fst (bcretskgo bc pc s k)) = auxpos bc + OnesCount16 (mask (validLanes (vmState bc))) \<and>
   validLanes (vmState (fst (bcretkgo bc pc k))) = validLanes (vmState bc) \<and>
   validLanes (vmState (fst (bcretbkgo bc pc b k))) = validLanes (vmState bc) \<and>
   validLanes (vmState (fst (bcretbhkgo bc pc b k))) = validLanes (vmState bc) \<and>
   validLanes (vmState (fst (bcretskgo bc pc s k))) = validLanes (vmState bc)"
  by (simp add: bcretgo_def bcretkgo_def bcretbkgo_def bcretbhkgo_def bcretskgo_def Let_def)

lemma upt_bcLaneCount: "[0..<bcLaneCount] = [0, 1, 2, 3, 4, 5, 6, 7, 8, 9, 10, 11, 12, 13, 14, 15]"
  by (simp add: bcLaneCount_def upt_rec)

lemma lanebit_bit: "bit (lanebit i) n \<longleftrightarrow> n = i \<and> i < 16"
  by (auto simp: lanebit_def bit_exp_iff possible_bit_word)

lemma bit16_lt: "bit (m::16 word) n \<Longrightarrow> n < 16"
  using bit_imp_le_length[of m n] by simp

lemma lane_set_iff: "k AND lanebit i \<noteq> 0 \<longleftrightarrow> bit k i \<and> i < 16"
  by (auto simp: bit_eq_iff[where 'a="16 word"] bit_and_iff lanebit_bit)

lemma mask_sub_iff: "m AND NOT k = 0 \<longleftrightarrow> (\<forall>n. bit m n \<longrightarrow> bit k n)" for m k :: "16 word"
  by (auto simp: bit_eq_iff[where 'a="16 word"] bit_and_iff bit_not_iff dest: bit16_lt)

section \<open>Field lookup: findsym\<close>

text \<open>The header of a value lies within the value: cutting the buffer at the end of the
  value does not change what the readers see.\<close>

lemma readuv_take:
  "readuv acc xs = Some (n, r) \<Longrightarrow> length xs - length r \<le> m \<Longrightarrow>
   readuv acc (take m xs) = Some (n, take (m - (length xs - length r)) r)"
proof (induction acc xs arbitrary: m rule: readuv.induct)
  case (1 acc)
  then show ?case by simp
next
  case (2 acc b bs)
  show ?case
  proof (cases "b AND 0x80 \<noteq> 0")
    case True
    with 2 show ?thesis by (cases m) auto
  next
    case False
    with "2.prems" have r: "readuv (acc * 128 + unat (b AND 0x7f)) bs = Some (n, r)" by simp
    from readuv_length[OF r] have lt: "length r < length bs" .
    with "2.prems"(2) obtain m' where m: "m = Suc m'" and le: "length bs - length r \<le> m'"
      by (cases m) auto
    from "2.IH"[OF False r le] False m lt show ?thesis
      by (simp add: Suc_diff_le)
  qed
qed

lemma HeaderSizeOf_take:
  assumes "0 < SizeOf msg" "SizeOf msg \<le> int (length msg)"
  shows "HeaderSizeOf (take (nat (SizeOf msg)) msg) = HeaderSizeOf msg"
proof (cases msg)
  case Nil
  with assms show ?thesis by simp
next
  case (Cons t rest)
  show ?thesis
  proof (cases "t AND 0x0f = 0x0e")
    case False
    with Cons assms show ?thesis by (cases "nat (SizeOf msg)") auto
  next
    case True
    with Cons assms obtain n rest' where r: "readuv 0 rest = Some (n, rest')"
      by (auto split: option.splits)
    from readuv_length[OF r] have lt: "length rest' < length rest" .
    have sz: "SizeOf msg = 1 + int (length rest - length rest') + int n"
      using Cons True r by simp
    then have nat: "nat (SizeOf msg) = Suc ((length rest - length rest') + n)" by simp
    from readuv_take[OF r, of "(length rest - length rest') + n"]
    have "readuv 0 (take ((length rest - length rest') + n) rest) = Some (n, take n rest')" by simp
    moreover have le: "length rest - length rest' + n \<le> length rest"
      using assms(2) sz Cons by simp
    moreover from le lt have "n \<le> length rest'" by arith
    ultimately show ?thesis using Cons True r nat lt
      by (simp add: min_absorb2 del: SizeOf.simps HeaderSizeOf.simps add: SizeOf.simps(2)[of t] HeaderSizeOf.simps(2)[of t])
  qed
qed

lemma set_lane_set_lane: "set_lane i x (set_lane i y d) = set_lane i x d"
  by (simp add: set_lane_def)

lemma v_lane_set_lane: "v_lane (set_lane i x d) j = (if j = i then x else v_lane d j)"
  by (simp add: set_lane_def v_lane_def)

lemma struct_fields_Nil: "struct_fields pos [] = Some []"
  by (simp add: struct_fields.simps)

lemma symsearch_Nil: "symsearch symbol start width i [] d = Done (d, False)"
  by (simp add: symsearch.simps)

lemma symsearch_scan:
  "struct_fields pos mem = Some fs \<Longrightarrow> pos + length mem = unat width \<Longrightarrow>
   symsearch symbol start width i mem (set_lane i x d) =
     Done (set_lane i (fst (scan symbol start fs x)) d, snd (scan symbol start fs x))"
proof (induction pos mem arbitrary: fs x rule: struct_fields.induct)
  case (1 pos body)
  show ?case
  proof (cases "body = []")
    case True
    with "1.prems" show ?thesis
      by (auto simp: struct_fields_Nil symsearch_Nil)
  next
    case False
    from "1.prems"(1) False obtain lbl rest where rl: "ReadLabel body = Some (lbl, rest)"
      by (auto simp: struct_fields.simps[of pos body] split: option.splits)
    from "1.prems"(1) False rl have ne: "rest \<noteq> []" and sz: "0 < SizeOf rest" "SizeOf rest \<le> int (length rest)"
      by (auto simp: struct_fields.simps[of pos body] split: option.splits if_splits)
    let ?p = "pos + (length body - length rest)"
    let ?v = "take (nat (SizeOf rest)) rest"
    from "1.prems"(1) False rl ne sz obtain fs' where
      fs': "struct_fields (?p + nat (SizeOf rest)) (drop (nat (SizeOf rest)) rest) = Some fs'"
      and fs: "fs = (lbl, ?p, ?v) # fs'"
      by (auto simp: struct_fields.simps[of pos body] split: option.splits if_splits)
    from ReadLabel_length[OF rl] have lt: "length rest < length body" .
    have pw: "?p + length rest = unat width" using "1.prems"(2) lt by simp
    have off: "start + width - word_of_nat (length rest) = start + word_of_nat ?p"
    proof -
      have "word_of_nat ?p + word_of_nat (length rest) = (word_of_nat (unat width) :: 32 word)"
        using pw by (metis of_nat_add)
      then have "word_of_nat ?p = width - (word_of_nat (length rest) :: 32 word)"
        by (simp add: eq_diff_eq)
      then show ?thesis by simp
    qed
    have len: "length ?v = nat (SizeOf rest)" using sz by simp
    have szw: "(word_of_int (SizeOf rest) :: 32 word) = word_of_nat (length ?v)"
      using sz len by (metis int_nat_eq less_le_not_le linorder_le_cases of_int_of_nat_eq)
    have hdv: "hd ?v = hd rest" using sz ne by (cases rest; cases "nat (SizeOf rest)") auto
    have hs: "HeaderSizeOf ?v = HeaderSizeOf rest" using HeaderSizeOf_take[OF sz] .
    have upd: "(set_lane i x d)\<lparr>
                  v_offsets := (v_offsets (set_lane i x d))(i := start + width - word_of_nat (length rest)),
                  v_sizes := (v_sizes (set_lane i x d))(i := word_of_int (SizeOf rest)),
                  v_typeL := (v_typeL (set_lane i x d))(i := hd rest),
                  v_headerSize := (v_headerSize (set_lane i x d))(i := word_of_int (HeaderSizeOf rest))\<rparr>
               = set_lane i (field_ref start (lbl, ?p, ?v)) d"
      by (simp add: set_lane_def field_ref_def off szw hdv hs)
    show ?thesis
    proof (cases "lbl > symbol")
      case True
      with False rl fs show ?thesis
        by (simp add: symsearch.simps[of _ _ _ _ body])
    next
      case nogt: False
      show ?thesis
      proof (cases "lbl = symbol")
        case True
        with False rl fs ne nogt upd show ?thesis
          by (simp add: symsearch.simps[of _ _ _ _ body] Let_def)
      next
        case neq: False
        have pw': "?p + nat (SizeOf rest) + length (drop (nat (SizeOf rest)) rest) = unat width"
          using pw sz by simp
        have IH: "symsearch symbol start width i (drop (nat (SizeOf rest)) rest)
                    (set_lane i (field_ref start (lbl, ?p, ?v)) d) =
                  Done (set_lane i (fst (scan symbol start fs' (field_ref start (lbl, ?p, ?v)))) d,
                        snd (scan symbol start fs' (field_ref start (lbl, ?p, ?v))))"
          using "1.IH"[OF False rl refl ne _ fs' pw'] sz by simp
        have "symsearch symbol start width i body (set_lane i x d) =
              symsearch symbol start width i (drop (nat (SizeOf rest)) rest)
                    (set_lane i (field_ref start (lbl, ?p, ?v)) d)"
          using False rl ne nogt neq sz upd
          by (subst symsearch.simps) (simp add: Let_def)
        with IH fs nogt neq show ?thesis by simp
      qed
    qed
  qed
qed

lemma scan_expect:
  "sorted_wrt (<) (map fst fs) \<Longrightarrow>
   scan symbol start fs x =
     (case filter (\<lambda>f. fst f = symbol) fs of
        f # _ \<Rightarrow> (field_ref start f, True)
      | [] \<Rightarrow>
          (case filter (\<lambda>f. fst f < symbol) fs of
             [] \<Rightarrow> (x, False)
           | g # gs \<Rightarrow> (field_ref start (last (g # gs)), False)))"
proof (induction fs arbitrary: x)
  case Nil
  then show ?case by simp
next
  case (Cons f fs)
  then have gt: "\<forall>g\<in>set fs. fst f < fst g" and srt: "sorted_wrt (<) (map fst fs)" by auto
  show ?case
  proof (cases "fst f > symbol")
    case True
    with gt have "filter (\<lambda>g. fst g = symbol) fs = []" "filter (\<lambda>g. fst g < symbol) fs = []"
      by (auto simp: filter_empty_conv)
    with True show ?thesis by simp
  next
    case False
    show ?thesis
    proof (cases "fst f = symbol")
      case True
      then show ?thesis by simp
    next
      case neq: False
      with False have lt: "fst f < symbol" by simp
      show ?thesis using Cons.IH[OF srt, of "field_ref start f"] lt neq
        by (auto split: list.splits)
    qed
  qed
qed

lemma sorted_fields_unique:
  "sorted_wrt (<) (map fst fs) \<Longrightarrow> f \<in> set fs \<Longrightarrow> filter (\<lambda>g. fst g = fst f) fs = [f]"
  for fs :: "(nat \<times> nat \<times> byte list) list"
proof (induction fs)
  case Nil
  then show ?case by simp
next
  case (Cons a fs)
  then have gt: "\<forall>g\<in>set fs. fst a < fst g" and srt: "sorted_wrt (<) (map fst fs)" by auto
  show ?case
  proof (cases "f = a")
    case True
    from gt True have "\<forall>g\<in>set fs. fst g \<noteq> fst f" by fastforce
    then have "filter (\<lambda>g. fst g = fst f) fs = []" by (simp add: filter_empty_conv)
    with True show ?thesis by simp
  next
    case False
    with Cons.prems have "f \<in> set fs" by simp
    with gt Cons.IH[OF srt this] show ?thesis by auto
  qed
qed

lemma vmref_mem_length: "vmref_mem vmm (off, sz) = Some body \<Longrightarrow> length body = unat sz"
  by (auto simp: vmref_mem_def split: if_splits)

lemma findsym_lane_res:
  assumes "srcmask AND lanebit j \<noteq> 0 \<longrightarrow> lane_fields vmm srcb j \<noteq> None"
  shows "findsym_lane vmm srcb symbol srcmask j d =
         Done (set_lane j (fst (lane_res vmm srcb symbol srcmask j)) d,
               snd (lane_res vmm srcb symbol srcmask j))"
proof (cases "srcmask AND lanebit j = 0")
  case True
  then show ?thesis
    by (simp add: findsym_lane_def lane_res_def set_lane_def Let_def)
next
  case False
  with assms obtain body fs where
    m: "vmref_mem vmm (b_offsets srcb j, b_sizes srcb j) = Some body" and
    fs: "struct_fields 0 body = Some fs"
    by (auto simp: lane_fields_def split: option.splits)
  have d0: "d\<lparr>v_offsets := (v_offsets d)(j := b_offsets srcb j),
               v_sizes := (v_sizes d)(j := 0),
               v_typeL := (v_typeL d)(j := 0),
               v_headerSize := (v_headerSize d)(j := 0)\<rparr> = set_lane j (b_offsets srcb j, 0, 0, 0) d"
    by (simp add: set_lane_def)
  from symsearch_scan[OF fs, of "b_sizes srcb j" symbol "b_offsets srcb j" j "(b_offsets srcb j, 0, 0, 0)" d]
    vmref_mem_length[OF m]
  have "symsearch symbol (b_offsets srcb j) (b_sizes srcb j) j body (set_lane j (b_offsets srcb j, 0, 0, 0) d) =
        Done (set_lane j (fst (scan symbol (b_offsets srcb j) fs (b_offsets srcb j, 0, 0, 0))) d,
              snd (scan symbol (b_offsets srcb j) fs (b_offsets srcb j, 0, 0, 0)))"
    by simp
  with False m fs d0 show ?thesis
    by (simp add: findsym_lane_def lane_res_def Let_def lane_fields_def)
qed

lemma findsym_lanes_res:
  "\<forall>j\<in>set js. srcmask AND lanebit j \<noteq> 0 \<longrightarrow> lane_fields vmm srcb j \<noteq> None \<Longrightarrow>
   findsym_lanes vmm srcb symbol srcmask js (d, m) =
     Done (fold (\<lambda>j. set_lane j (fst (lane_res vmm srcb symbol srcmask j))) js d,
           fold (\<lambda>j m. if snd (lane_res vmm srcb symbol srcmask j) then m OR lanebit j else m) js m)"
proof (induction js arbitrary: d m)
  case Nil
  then show ?case by simp
next
  case (Cons j js)
  then show ?case by (simp add: findsym_lane_res)
qed

lemma fold_set_lane:
  "v_lane (fold (\<lambda>j. set_lane j (X j)) js d) i = (if i \<in> set js then X i else v_lane d i)"
  by (induction js arbitrary: d) (auto simp: v_lane_set_lane)

lemma fold_lanebit:
  "bit (fold (\<lambda>j m. if H j then m OR lanebit j else m) js m) i \<longleftrightarrow>
   bit m i \<or> (i \<in> set js \<and> H i \<and> i < 16)"
  by (induction js arbitrary: m) (auto simp: bit_or_iff lanebit_bit)

lemma fields_5_9_12_20:
  "lane_fields body_5_9_12_20 (breg_lane0 0 12) 0 =
     Some [(5, 1, [0x21, 1]), (9, 4, [0x21, 2]), (12, 7, [0x21, 3]), (20, 10, [0x21, 4])]"
  by code_simp

lemma only_lane0: "(1::16 word) AND lanebit j \<noteq> 0 \<longleftrightarrow> j = 0"
  by (auto simp: lane_set_iff bit_1_iff)

text \<open>
  C1, as stated, fails on the miss: in scenario 2 of the spec (labels 5, 9, 12, 20; target
  10) the mask bit is clear, but the value register is not left pointing just past field 9
  (position 6 of the body): it holds the reference to the value of field 9 itself, offset 4,
  length 2, type byte 0x21 and header length 1, as it would after a hit on 9.
\<close>

theorem bcfindsymgo_miss_counterexample:
  "map_option (\<lambda>(d, k, e). (bit (mask k) 0, v_lane d 0, e))
     (bcfindsymgo body_5_9_12_20 bcerrNone vreg_zero (breg_lane0 0 12) 10 \<lparr>mask = 1\<rparr>)
     = Some (False, (4, 2, 0x21, 1), bcerrNone) \<and>
   map_option (\<lambda>(d, k, e). (bit (mask k) 0, v_lane d 0, e))
     (bcfindsymgo body_5_9_12_20 bcerrNone vreg_zero (breg_lane0 0 12) 9 \<lparr>mask = 1\<rparr>)
     = Some (True, (4, 2, 0x21, 1), bcerrNone) \<and>
   lane_fields body_5_9_12_20 (breg_lane0 0 12) 0 =
     Some [(5, 1, [0x21, 1]), (9, 4, [0x21, 2]), (12, 7, [0x21, 3]), (20, 10, [0x21, 4])] \<and>
   (4::32 word) \<noteq> 4 + 2"
  by code_simp

text \<open>
  C1, amended: in a batch where every lane set in the input mask spans a well-formed struct
  body, the opcode completes without a panic and leaves the error field as it was; for every
  such lane whose labels are strictly ascending, the output mask bit is set if and only if a
  field with the target symbol id is present; on a hit the lane of the value register holds
  the offset, length, type byte and header length of that field's value; on a miss it holds
  the same four components of the value of the last field whose label is smaller than the
  target (so that offset plus length is the position just past that field), or the start of
  the body with length, type byte and header length zero when no label is smaller.
\<close>

theorem bcfindsymgo_fields:
  assumes ok: "\<forall>j<bcLaneCount. mask srck AND lanebit j \<noteq> 0 \<longrightarrow> lane_fields vmm srcb j \<noteq> None"
    and i: "i < bcLaneCount" "mask srck AND lanebit i \<noteq> 0"
    and fs: "lane_fields vmm srcb i = Some fs"
    and asc: "sorted_wrt (<) (map fst fs)"
  shows "\<exists>dstv' dstk'.
           bcfindsymgo vmm e dstv srcb symbol srck = Some (dstv', dstk', e) \<and>
           (bit (mask dstk') i \<longleftrightarrow> symbol \<in> fst ` set fs) \<and>
           v_lane dstv' i = fst (findsym_expect symbol (b_offsets srcb i) fs) \<and>
           (\<forall>f\<in>set fs. fst f = symbol \<longrightarrow> v_lane dstv' i = field_ref (b_offsets srcb i) f)"
proof -
  let ?R = "lane_res vmm srcb symbol (mask srck)"
  let ?d = "fold (\<lambda>j. set_lane j (fst (?R j))) [0..<bcLaneCount] dstv"
  let ?m = "fold (\<lambda>j m. if snd (?R j) then m OR lanebit j else m) [0..<bcLaneCount] (0::16 word)"
  have run: "findsym_lanes vmm srcb symbol (mask srck) [0..<bcLaneCount] (dstv, 0) = Done (?d, ?m)"
    using ok by (intro findsym_lanes_res) auto
  have res: "?R i = findsym_expect symbol (b_offsets srcb i) fs"
    using i fs scan_expect[OF asc] by (simp add: lane_res_def findsym_expect_def)
  have i16: "i < 16" using i by (simp add: bcLaneCount_def)
  have hit: "snd (findsym_expect symbol (b_offsets srcb i) fs) \<longleftrightarrow> symbol \<in> fst ` set fs"
  proof -
    have "snd (findsym_expect symbol (b_offsets srcb i) fs) \<longleftrightarrow> filter (\<lambda>f. fst f = symbol) fs \<noteq> []"
      by (simp add: findsym_expect_def split: list.splits)
    also have "\<dots> \<longleftrightarrow> (\<exists>f\<in>set fs. fst f = symbol)"
      by (simp add: filter_empty_conv)
    also have "\<dots> \<longleftrightarrow> symbol \<in> fst ` set fs"
      by (auto simp: image_iff)
    finally show ?thesis .
  qed
  have lane: "v_lane ?d i = fst (findsym_expect symbol (b_offsets srcb i) fs)"
    using i res by (simp add: fold_set_lane)
  have bit: "bit ?m i \<longleftrightarrow> symbol \<in> fst ` set fs"
    using i i16 res hit by (simp add: fold_lanebit)
  have uniq: "\<forall>f\<in>set fs. fst f = symbol \<longrightarrow> v_lane ?d i = field_ref (b_offsets srcb i) f"
  proof (intro ballI impI)
    fix f assume "f \<in> set fs" "fst f = symbol"
    with sorted_fields_unique[OF asc, of f] have "filter (\<lambda>g. fst g = symbol) fs = [f]" by simp
    with lane show "v_lane ?d i = field_ref (b_offsets srcb i) f"
      by (simp add: findsym_expect_def)
  qed
  show ?thesis
    using run lane bit uniq by (simp add: bcfindsymgo_def)
qed

text \<open>C1, witness: scenario 2 of the spec with target 9, a hit on the second field.\<close>

theorem bcfindsymgo_fields_witness:
  "\<exists>dstv' dstk'.
     bcfindsymgo body_5_9_12_20 bcerrNone vreg_zero (breg_lane0 0 12) 9 \<lparr>mask = 1\<rparr> =
       Some (dstv', dstk', bcerrNone) \<and>
     bit (mask dstk') 0 \<and> v_lane dstv' 0 = (4, 2, 0x21, 1)"
proof -
  let ?fs = "[(5, 1, [0x21, 1]), (9, 4, [0x21, 2]), (12, 7, [0x21, 3]), (20, 10, [0x21, 4])]
               :: (nat \<times> nat \<times> byte list) list"
  have ok: "\<forall>j<bcLaneCount. mask \<lparr>mask = 1\<rparr> AND lanebit j \<noteq> 0 \<longrightarrow>
              lane_fields body_5_9_12_20 (breg_lane0 0 12) j \<noteq> None"
    by (simp add: only_lane0 fields_5_9_12_20)
  have i: "0 < bcLaneCount" "mask \<lparr>mask = 1\<rparr> AND lanebit 0 \<noteq> 0"
    by (simp_all add: bcLaneCount_def only_lane0)
  have asc: "sorted_wrt (<) (map fst ?fs)" by simp
  from bcfindsymgo_fields[OF ok i fields_5_9_12_20 asc, of bcerrNone vreg_zero 9]
  show ?thesis
    by (simp add: findsym_expect_def field_ref_def breg_lane0_def)
qed

section \<open>Polymorphic comparison with an integer immediate\<close>

text \<open>
  C2: the code does not do what the claim says for a positive-integer lane and a negative
  immediate. Lane 0 holds the positive integer 3 (bytes 0x21 0x03) and the immediate is -1:
  the lane is comparable, and the result is -1, where the sign of 3 - (-1) is +1. The branch
  for \<open>UintType\<close> answers -1 as soon as the immediate is negative.
\<close>

theorem bccmpvi64immgo_uint_negative_imm:
  "map_option (\<lambda>(rs, k). (i_values rs 0, bit (mask k) 0))
     (bccmpvi64immgo fo [0x21, 0x03] \<lparr>i_values = (\<lambda>_. 0)\<rparr> (vreg_lane0 0x21) (-1) \<lparr>mask = 1\<rparr>)
   = Some (-1, True)"
  by (simp add: bccmpvi64immgo_def upt_bcLaneCount cmpvi64imm_lane_def lanebit_def vreg_lane0_def
      vmref_mem_def ReadUint_def short_body_def TypeOf_def be_nat_def Let_def word_sless_alt)

section \<open>The mask contract of the portable opcodes\<close>

lemma mask_sub_or: "m AND NOT k = 0 \<Longrightarrow> k AND lanebit i \<noteq> 0 \<Longrightarrow> (m OR lanebit i) AND NOT k = (0::16 word)"
  by (auto simp: mask_sub_iff lane_set_iff bit_or_iff lanebit_bit)

lemma fold_inv: "(\<And>x s. P s \<Longrightarrow> P (f x s)) \<Longrightarrow> P s \<Longrightarrow> P (fold f xs s)"
  by (induction xs arbitrary: s) auto

lemma tuple_lane_sub: "snd st AND NOT msk = 0 \<Longrightarrow> snd (tuple_lane src msk i st) AND NOT msk = 0"
  by (auto simp: tuple_lane_def Let_def mask_sub_or)

lemma cmpv_loop_sub:
  "cmpvi64imm_loop fo vmm src imm msk is (rs, rm) = Some (rs', rm') \<Longrightarrow> rm AND NOT msk = 0
   \<Longrightarrow> rm' AND NOT msk = 0"
proof (induction "is" arbitrary: rs rm)
  case Nil
  then show ?case by simp
next
  case (Cons i "is")
  then show ?case
    by (auto simp: cmpvi64imm_lane_def Let_def mask_sub_or split: option.splits if_splits prod.splits)
qed

lemma findsym_lane_hit:
  "findsym_lane vmm src symbol srcmask i d = Done (d', True) \<Longrightarrow> srcmask AND lanebit i \<noteq> 0"
  by (auto simp: findsym_lane_def Let_def split: if_splits)

lemma findsym_lanes_sub:
  "findsym_lanes vmm src symbol srcmask is (d, m) = Done (d', m') \<or>
   findsym_lanes vmm src symbol srcmask is (d, m) = Corrupt (d', m') \<Longrightarrow>
   m AND NOT srcmask = 0 \<Longrightarrow> m' AND NOT srcmask = 0"
proof (induction "is" arbitrary: d m)
  case Nil
  then show ?case by auto
next
  case (Cons i "is")
  show ?case
  proof (cases "findsym_lane vmm src symbol srcmask i d")
    case (Done r)
    obtain d1 hit where r: "r = (d1, hit)" by (cases r)
    have sub: "(if hit then m OR lanebit i else m) AND NOT srcmask = 0"
      using Cons.prems(2) Done r findsym_lane_hit[of vmm src symbol srcmask i d d1]
      by (auto simp: mask_sub_or)
    from Cons.prems(1) Done r
    have "findsym_lanes vmm src symbol srcmask is (d1, if hit then m OR lanebit i else m) = Done (d', m') \<or>
          findsym_lanes vmm src symbol srcmask is (d1, if hit then m OR lanebit i else m) = Corrupt (d', m')"
      by simp
    from Cons.IH[OF this sub] show ?thesis .
  next
    case (Corrupt r)
    with Cons.prems show ?thesis by (auto split: prod.splits)
  next
    case Panic
    with Cons.prems show ?thesis by simp
  qed
qed

lemma cmplt_sub: "mask (bccmplti64immgo arg0 arg1imm srck) AND NOT (mask srck) = 0"
  by (simp add: bccmplti64immgo_def Let_def and.assoc)

lemma tuple_sub: "mask (snd (bctuplego dstb srcv srck)) AND NOT (mask srck) = 0"
  unfolding bctuplego_def Let_def
  using fold_inv[where P="\<lambda>st. snd st AND NOT (mask srck) = 0" and f="tuple_lane srcv (mask srck)"
        and s="(dstb, 0)" and xs="[0..<bcLaneCount]"]
  by (simp add: tuple_lane_sub)

lemma cmpv_sub:
  "bccmpvi64immgo fo vmm retslot argv imm argk = Some (rs, retk) \<Longrightarrow> mask retk AND NOT (mask argk) = 0"
  by (auto simp: bccmpvi64immgo_def split: option.splits dest!: cmpv_loop_sub)

lemma findsym_sub:
  "bcfindsymgo vmm e dstv srcb symbol srck = Some (dstv', dstk, e') \<Longrightarrow>
   mask dstk AND NOT (mask srck) = 0"
  using findsym_lanes_sub[of vmm srcb symbol "mask srck" "[0..<bcLaneCount]" dstv 0 dstv' "mask dstk"]
  by (auto simp: bcfindsymgo_def split: outcome.splits)

text \<open>
  C8: the portable opcodes that take an input mask (\<open>cmplt.i64@imm\<close>, \<open>cmpv.i64@imm\<close>,
  \<open>tuple\<close> and \<open>findsym\<close>) never set an output mask bit for a lane whose input mask bit is
  clear, and the terminal opcodes \<open>ret.k\<close>, \<open>ret.b.k\<close>, \<open>ret.b.h.k\<close> and \<open>ret.s.k\<close> write
  their mask operand unchanged.
\<close>

theorem portable_opcodes_output_mask_subset:
  assumes "bccmpvi64immgo fo vmm retslot argv imm argk = Some (rs, retk)"
    and "bcfindsymgo vmm' e dstv srcb symbol srck = Some (dstv', dstk, e')"
  shows "(\<forall>n. bit (mask (bccmplti64immgo arg0 arg1imm k1)) n \<longrightarrow> bit (mask k1) n) \<and>
         (\<forall>n. bit (mask retk) n \<longrightarrow> bit (mask argk) n) \<and>
         (\<forall>n. bit (mask (snd (bctuplego dstb srcv k2))) n \<longrightarrow> bit (mask k2) n) \<and>
         (\<forall>n. bit (mask dstk) n \<longrightarrow> bit (mask srck) n) \<and>
         mask (outputLanes (vmState (fst (bcretkgo bc pc k)))) = mask k \<and>
         mask (outputLanes (vmState (fst (bcretbkgo bc pc b k)))) = mask k \<and>
         mask (outputLanes (vmState (fst (bcretbhkgo bc pc b k)))) = mask k \<and>
         mask (outputLanes (vmState (fst (bcretskgo bc pc s k)))) = mask k"
  using cmplt_sub[of arg0 arg1imm k1] cmpv_sub[OF assms(1)] tuple_sub[of dstb srcv k2]
    findsym_sub[OF assms(2)]
  by (simp add: mask_sub_iff bcretkgo_def bcretbkgo_def bcretbhkgo_def bcretskgo_def Let_def)

text \<open>C8, witness: both opcodes that can panic complete on these inputs; lane 1 is clear in
  every input mask and stays clear in every output mask.\<close>

theorem portable_opcodes_output_mask_subset_witness:
  "(\<exists>rs retk. bccmpvi64immgo no_floats [0x21, 0x03] \<lparr>i_values = (\<lambda>_. 0)\<rparr> (vreg_lane0 0x21) 7
                 \<lparr>mask = 1\<rparr> = Some (rs, retk) \<and> \<not> bit (mask retk) 1) \<and>
   (\<exists>dstv' dstk e'. bcfindsymgo body_5_9_12_20 bcerrNone vreg_zero (breg_lane0 0 12) 9 \<lparr>mask = 1\<rparr> =
                 Some (dstv', dstk, e') \<and> \<not> bit (mask dstk) 1) \<and>
   \<not> bit (mask (bccmplti64immgo \<lparr>i_values = (\<lambda>_. 0)\<rparr> 5 \<lparr>mask = 1\<rparr>)) 1 \<and>
   \<not> bit (mask (snd (bctuplego (breg_lane0 0 0) (vreg_lane0 0xd1) \<lparr>mask = 1\<rparr>))) 1"
proof -
  have "case bccmpvi64immgo no_floats [0x21, 0x03] \<lparr>i_values = (\<lambda>_. 0)\<rparr> (vreg_lane0 0x21) 7
               \<lparr>mask = 1\<rparr> of None \<Rightarrow> False | Some r \<Rightarrow> True"
    by code_simp
  then obtain rs retk where
    c: "bccmpvi64immgo no_floats [0x21, 0x03] \<lparr>i_values = (\<lambda>_. 0)\<rparr> (vreg_lane0 0x21) 7
          \<lparr>mask = 1\<rparr> = Some (rs, retk)"
    by (auto split: option.splits)
  have "case bcfindsymgo body_5_9_12_20 bcerrNone vreg_zero (breg_lane0 0 12) 9 \<lparr>mask = 1\<rparr>
          of None \<Rightarrow> False | Some r \<Rightarrow> True"
    by code_simp
  then obtain dstv' dstk e' where
    f: "bcfindsymgo body_5_9_12_20 bcerrNone vreg_zero (breg_lane0 0 12) 9 \<lparr>mask = 1\<rparr> =
          Some (dstv', dstk, e')"
    by (auto split: option.splits)
  have one: "\<not> bit (1::16 word) 1" by (simp add: bit_1_iff)
  note T = portable_opcodes_output_mask_subset[OF c f,
      where ?arg0.0 = "\<lparr>i_values = (\<lambda>_. 0)\<rparr>" and arg1imm = 5 and ?k1.0 = "\<lparr>mask = 1\<rparr>"
        and dstb = "breg_lane0 0 0" and srcv = "vreg_lane0 0xd1" and ?k2.0 = "\<lparr>mask = 1\<rparr>"
        and bc = bc_full and pc = 0 and k = "\<lparr>mask = 0\<rparr>" and b = "breg_lane0 0 0"
        and s = "\<lparr>s_offsets = (\<lambda>_. 0), s_sizes = (\<lambda>_. 0)\<rparr>"]
  from T one have "\<not> bit (mask retk) 1" "\<not> bit (mask dstk) 1"
    "\<not> bit (mask (bccmplti64immgo \<lparr>i_values = (\<lambda>_. 0)\<rparr> 5 \<lparr>mask = 1\<rparr>)) 1"
    "\<not> bit (mask (snd (bctuplego (breg_lane0 0 0) (vreg_lane0 0xd1) \<lparr>mask = 1\<rparr>))) 1"
    by (simp_all del: One_nat_def) blast+
  with c f show ?thesis by blast
qed

section \<open>The filter driver\<close>

lemma keep_upto_Suc: "keep_upto sel (Suc i) = keep_upto sel i @ (if sel i then [i] else [])"
  by (simp add: keep_upto_def)

lemma keep_upto_length: "length (keep_upto sel i) \<le> i"
  unfolding keep_upto_def using length_filter_le[of sel "[0..<i]"] by simp

lemma drop_eq_nth:
  assumes "drop n xs = drop n ys" "length xs = length ys" "n + k < length xs"
  shows "xs ! (n + k) = ys ! (n + k)"
proof -
  have "xs ! (n + k) = drop n xs ! k" using assms(3) by simp
  also have "\<dots> = drop n ys ! k" using assms(1) by simp
  also have "\<dots> = ys ! (n + k)" using assms(2,3) by simp
  finally show ?thesis .
qed

lemma drop_eq_more:
  assumes "drop n xs = drop n ys"
  shows "drop (n + k) xs = drop (n + k) ys"
proof -
  have "drop (n + k) xs = drop k (drop n xs)" by (simp add: add.commute)
  also have "\<dots> = drop k (drop n ys)" using assms by simp
  also have "\<dots> = drop (n + k) ys" by (simp add: add.commute)
  finally show ?thesis .
qed

lemma col_inv_skip:
  "col_inv sel a i j col col0 \<Longrightarrow> \<not> sel i \<Longrightarrow> col_inv sel a (Suc i) j col col0"
  using drop_eq_more[of "a + i" col col0 1]
  by (simp add: col_inv_def keep_upto_Suc)

lemma col_inv_move:
  assumes inv: "col_inv sel a i j col col0" and s: "sel i" and j: "j = length (keep_upto sel i)"
    and len: "a + i < length col0"
  shows "col_inv sel a (Suc i) (Suc j) (col[j := col ! (a + i)]) col0"
proof -
  from inv have l: "length col = length col0"
    and t: "take j col = map (\<lambda>r. col0 ! (a + r)) (keep_upto sel i)"
    and d: "drop (a + i) col = drop (a + i) col0"
    by (auto simp: col_inv_def)
  have ji: "j \<le> i" using j keep_upto_length[of sel i] by simp
  have jl: "j < length col" using ji len l by simp
  have x: "col ! (a + i) = col0 ! (a + i)"
    using drop_eq_nth[OF d l, of 0] len l by simp
  have "take (Suc j) (col[j := col ! (a + i)]) = take j col @ [col ! (a + i)]"
    using jl by (simp add: take_Suc_conv_app_nth)
  then have t': "take (Suc j) (col[j := col ! (a + i)]) = map (\<lambda>r. col0 ! (a + r)) (keep_upto sel (Suc i))"
    using t x s by (simp add: keep_upto_Suc)
  have "drop (a + Suc i) (col[j := col ! (a + i)]) = drop (a + Suc i) col"
    using ji by simp
  also have "\<dots> = drop (a + Suc i) col0"
    using drop_eq_more[OF d, of 1] by simp
  finally show ?thesis using l t' by (simp add: col_inv_def)
qed

lemma col_inv_more:
  "col_inv sel a i j col col0 \<Longrightarrow> \<forall>r. i \<le> r \<and> r < i' \<longrightarrow> \<not> sel r \<Longrightarrow> i \<le> i' \<Longrightarrow>
   col_inv sel a i' j col col0"
proof (induction "i' - i" arbitrary: i')
  case 0
  then show ?case by simp
next
  case (Suc n)
  then obtain m where m: "i' = Suc m" "i \<le> m" by (cases i') auto
  with Suc have "col_inv sel a m j col col0" by auto
  with Suc.prems m show ?case by (auto intro: col_inv_skip)
qed

lemma keep_upto_more:
  "\<forall>r. i \<le> r \<and> r < i' \<longrightarrow> \<not> sel r \<Longrightarrow> i \<le> i' \<Longrightarrow> keep_upto sel i' = keep_upto sel i"
proof (induction "i' - i" arbitrary: i')
  case 0
  then show ?case by simp
next
  case (Suc n)
  then obtain m where m: "i' = Suc m" "i \<le> m" by (cases i') auto
  with Suc have "keep_upto sel m = keep_upto sel i" by auto
  with Suc.prems m show ?case by (auto simp: keep_upto_Suc)
qed

lemma and_1_bit0: "(m AND 1 \<noteq> 0) = bit m 0" for m :: "16 word"
  by (simp add: and_one_eq bit_0 odd_iff_mod_2_eq_one)

lemma list_all2_setD1: "list_all2 P xs ys \<Longrightarrow> x \<in> set xs \<Longrightarrow> \<exists>y\<in>set ys. P x y"
  by (induction rule: list_all2_induct) auto

lemma move_aux_Some:
  "\<forall>col\<in>set aux. src < length col \<and> j < length col \<Longrightarrow>
   move_aux j src aux = Some (map (\<lambda>col. col[j := col ! src]) aux)"
  by (simp add: move_aux_def list_all_iff)

lemma compress_inv:
  assumes bits: "\<forall>k. bit mask0 k \<longleftrightarrow> k < len \<and> sel (i + k)"
    and n: "i + len \<le> length dl0"
    and auxlen: "\<forall>col0\<in>set aux0. a + i + len \<le> length col0"
  shows "k0 \<le> len \<Longrightarrow> col_inv sel 0 (i + k0) j dl dl0 \<Longrightarrow>
     list_all2 (col_inv sel a (i + k0) j) aux aux0 \<Longrightarrow>
     j = length (keep_upto sel (i + k0)) \<Longrightarrow>
     \<exists>aux' dl' m'.
       compress (a + i) i [k0..<len] (aux, dl, j, drop_bit k0 mask0) =
         Some (aux', dl', length (keep_upto sel (i + len)), m') \<and>
       col_inv sel 0 (i + len) (length (keep_upto sel (i + len))) dl' dl0 \<and>
       list_all2 (col_inv sel a (i + len) (length (keep_upto sel (i + len)))) aux' aux0"
proof (induction "len - k0" arbitrary: k0 j dl aux)
  case 0
  then have "k0 = len" by simp
  with 0 show ?case by simp
next
  case (Suc d)
  then have lt: "k0 < len" by simp
  then have upt: "[k0..<len] = k0 # [Suc k0..<len]" by (simp add: upt_conv_Cons)
  have jle: "j \<le> i + k0" using Suc.prems(4) keep_upto_length[of sel "i + k0"] by simp
  have dlen: "length dl = length dl0" using Suc.prems(2) by (simp add: col_inv_def)
  have alen: "\<forall>col\<in>set aux. a + i + len \<le> length col"
  proof
    fix col assume "col \<in> set aux"
    then obtain c0 where "c0 \<in> set aux0" "col_inv sel a (i + k0) j col c0"
      using list_all2_setD1[OF Suc.prems(3)] by blast
    with auxlen show "a + i + len \<le> length col" by (auto simp: col_inv_def)
  qed
  show ?case
  proof (cases "drop_bit k0 mask0 = 0")
    case True
    have nosel: "\<forall>r. i + k0 \<le> r \<and> r < i + len \<longrightarrow> \<not> sel r"
    proof (intro allI impI)
      fix r assume r: "i + k0 \<le> r \<and> r < i + len"
      define t where "t = r - (i + k0)"
      with r have t: "r = i + (k0 + t)" "k0 + t < len" by arith+
      have "bit (drop_bit k0 mask0) t = bit mask0 (k0 + t)" by (simp add: bit_drop_bit_eq)
      with True have "\<not> bit mask0 (k0 + t)" by simp
      with bits t show "\<not> sel r" by simp
    qed
    have le: "i + k0 \<le> i + len" using lt by simp
    from keep_upto_more[OF nosel le] Suc.prems(4)
    have j': "length (keep_upto sel (i + len)) = j" by simp
    have "col_inv sel 0 (i + len) j dl dl0"
      using col_inv_more[OF Suc.prems(2) nosel le] .
    moreover have "list_all2 (col_inv sel a (i + len) j) aux aux0"
    proof (rule list_all2_mono[OF Suc.prems(3)])
      fix col c0 assume "col_inv sel a (i + k0) j col c0"
      from col_inv_more[OF this nosel le] show "col_inv sel a (i + len) j col c0" .
    qed
    ultimately show ?thesis using True upt j' by simp
  next
    case nz: False
    have b0: "(drop_bit k0 mask0 AND 1 \<noteq> 0) = sel (i + k0)"
      using bits lt by (simp add: and_1_bit0 bit_drop_bit_eq)
    have dd: "drop_bit 1 (drop_bit k0 mask0) = drop_bit (Suc k0) mask0"
      by (simp add: drop_bit_drop_bit)
    have d': "d = len - Suc k0" using Suc.hyps(2) by simp
    have sk: "Suc k0 \<le> len" using lt by simp
    show ?thesis
    proof (cases "sel (i + k0)")
      case True
      have "\<forall>col\<in>set aux. a + i + k0 < length col \<and> j < length col"
      proof
        fix col assume "col \<in> set aux"
        with alen have "a + i + len \<le> length col" by blast
        with lt jle show "a + i + k0 < length col \<and> j < length col" by simp
      qed
      then have mv: "move_aux j (a + i + k0) aux = Some (map (\<lambda>col. col[j := col ! (a + i + k0)]) aux)"
        by (rule move_aux_Some)
      have jl: "j < length dl" "i + k0 < length dl" using jle lt n dlen by simp_all
      have dl': "col_inv sel 0 (i + Suc k0) (Suc j) (dl[j := dl ! (i + k0)]) dl0"
        using col_inv_move[OF Suc.prems(2) True Suc.prems(4)] lt n by simp
      have aux': "list_all2 (col_inv sel a (i + Suc k0) (Suc j))
                    (map (\<lambda>col. col[j := col ! (a + i + k0)]) aux) aux0"
        unfolding list_all2_map1
      proof (rule list.rel_mono_strong[OF Suc.prems(3)])
        fix col c0 assume c0: "c0 \<in> set aux0" and ci: "col_inv sel a (i + k0) j col c0"
        from c0 auxlen lt have "a + (i + k0) < length c0" by fastforce
        from col_inv_move[OF ci True Suc.prems(4) this]
        show "col_inv sel a (i + Suc k0) (Suc j) (col[j := col ! (a + i + k0)]) c0"
          by (simp add: add.assoc)
      qed
      have j': "Suc j = length (keep_upto sel (i + Suc k0))"
        using Suc.prems(4) True by (simp add: keep_upto_Suc)
      from Suc.hyps(1)[OF d' sk dl' aux' j']
      show ?thesis using upt nz b0 True mv jl dd by (simp add: add.assoc)
    next
      case False
      have dl': "col_inv sel 0 (i + Suc k0) j dl dl0"
        using col_inv_skip[OF Suc.prems(2) False] by simp
      have aux': "list_all2 (col_inv sel a (i + Suc k0) j) aux aux0"
      proof (rule list_all2_mono[OF Suc.prems(3)])
        fix col c0 assume "col_inv sel a (i + k0) j col c0"
        from col_inv_skip[OF this False] show "col_inv sel a (i + Suc k0) j col c0" by simp
      qed
      have j': "j = length (keep_upto sel (i + Suc k0))"
        using Suc.prems(4) False by (simp add: keep_upto_Suc)
      from Suc.hyps(1)[OF d' sk dl' aux' j']
      show ?thesis using upt nz b0 False dd by simp
    qed
  qed
qed

lemma valid_mask_bit:
  "len \<le> 16 \<Longrightarrow> bit (drop_bit (16 - len) (0xffff :: 16 word)) k \<longleftrightarrow> k < len"
proof -
  assume l: "len \<le> 16"
  have "(0xffff :: 16 word) = - 1" by simp
  then have "bit (drop_bit (16 - len) (0xffff :: 16 word)) k \<longleftrightarrow> 16 - len + k < 16"
    by (simp only: bit_drop_bit_eq bit_minus_1_iff possible_bit_word) simp
  with l show ?thesis by auto
qed

lemma filter_less_upt: "filter (\<lambda>i. i < m) [0..<n] = [0..<min m n]"
proof (induction n)
  case 0
  then show ?case by simp
next
  case (Suc n)
  show ?case
  proof (cases "n < m")
    case True
    then have "min m (Suc n) = Suc n" "min m n = n" by simp_all
    with Suc True show ?thesis by simp
  next
    case False
    then have "min m (Suc n) = m" "min m n = m" by simp_all
    with Suc False show ?thesis by simp
  qed
qed

lemma OnesCount16_valid:
  "len \<le> 16 \<Longrightarrow> OnesCount16 (drop_bit (16 - len) (0xffff :: 16 word)) = len"
  by (simp add: OnesCount16_def valid_mask_bit filter_less_upt)

lemma list_all2_map_eq: "list_all2 (\<lambda>x y. f x = g y) xs ys \<Longrightarrow> map f xs = map g ys"
  by (induction rule: list_all2_induct) auto

lemma batch_lanes:
  assumes prog: "lane_program run P"
    and e: "err bc = bcerrNone" and ap: "auxpos bc = a + i"
    and dl: "col_inv sel 0 i j dl dl0" and aux: "list_all2 (col_inv sel a i j) (auxvals bc) aux0"
    and sel: "sel = row_sel P a dl0 aux0"
    and i: "i < length dl0"
    and auxlen: "\<forall>col0\<in>set aux0. a + length dl0 \<le> length col0"
    and len: "len = min (length dl - i) bcLaneCount"
  shows "\<exists>bc1 msk. evalfiltergolanes run bc (take len (drop i dl)) = Some (bc1, msk) \<and>
           err bc1 = bcerrNone \<and> auxvals bc1 = auxvals bc \<and> auxpos bc1 = a + i + len \<and>
           (\<forall>k. bit msk k \<longleftrightarrow> k < len \<and> sel (i + k))"
proof -
  have dlen: "length dl = length dl0" using dl by (simp add: col_inv_def)
  have len16: "len \<le> 16" "len \<le> length dl - i" using len by (simp_all add: bcLaneCount_def)
  let ?next = "take len (drop i dl)"
  have ln: "length ?next = len" using len16 by simp
  let ?msk = "drop_bit (bcLaneCount - len) (0xffff :: 16 word)"
  let ?bc3 = "bc\<lparr>vmState := (vmState bc)\<lparr>delims := setvmrefB ?next,
                 validLanes := (validLanes (vmState bc))\<lparr>mask := ?msk\<rparr>,
                 outputLanes := (outputLanes (vmState bc))\<lparr>mask := 0\<rparr>\<rparr>\<rparr>"
  have e3: "err ?bc3 = bcerrNone" using e by simp
  from prog e3 have r: "err (run ?bc3) = bcerrNone" "auxvals (run ?bc3) = auxvals ?bc3"
    "auxpos (run ?bc3) = auxpos ?bc3 + OnesCount16 (mask (validLanes (vmState ?bc3)))"
    "\<forall>k<bcLaneCount. bit (mask (outputLanes (vmState (run ?bc3)))) k \<longleftrightarrow>
           bit (mask (validLanes (vmState ?bc3))) k \<and> P (lane_delim ?bc3 k) (aux_row ?bc3 k)"
    unfolding lane_program_def by blast+
  have ev: "evalfiltergolanes run bc ?next = Some (run ?bc3, mask (outputLanes (vmState (run ?bc3))))"
    using ln len16 r(1) e by (simp add: evalfiltergolanes_def Let_def eval_def bcLaneCount_def)
  have oc: "OnesCount16 ?msk = len" using len16 by (simp add: bcLaneCount_def OnesCount16_valid)
  have bits: "bit (mask (outputLanes (vmState (run ?bc3)))) k \<longleftrightarrow> k < len \<and> sel (i + k)" for k
  proof (cases "k < len")
    case True
    then have k16: "k < bcLaneCount" using len16 by (simp add: bcLaneCount_def)
    have v: "bit ?msk k" using True len16 by (simp add: bcLaneCount_def valid_mask_bit)
    have ik: "i + k < length dl" using True len16 by simp
    have "lane_delim ?bc3 k = ?next ! k"
      using True ln k16 by (simp add: lane_delim_def setvmrefB_def)
    also have "\<dots> = dl ! (i + k)" using True ik by simp
    also have "\<dots> = dl0 ! (i + k)"
      using drop_eq_nth[of "0 + i" dl dl0 k] dl ik by (simp add: col_inv_def)
    finally have ld: "lane_delim ?bc3 k = dl0 ! (i + k)" .
    have "list_all2 (\<lambda>col c0. col ! (a + i + k) = c0 ! (a + i + k)) (auxvals bc) aux0"
    proof (rule list.rel_mono_strong[OF aux])
      fix col c0 assume c0: "c0 \<in> set aux0" and ci: "col_inv sel a i j col c0"
      from c0 auxlen ik dlen have "a + i + k < length c0" by fastforce
      with ci drop_eq_nth[of "a + i" col c0 k] show "col ! (a + i + k) = c0 ! (a + i + k)"
        by (simp add: col_inv_def)
    qed
    from list_all2_map_eq[OF this]
    have ar: "aux_row ?bc3 k = map (\<lambda>col. col ! (a + (i + k))) aux0"
      using ap by (simp add: aux_row_def add.assoc)
    from r(4) k16 v ld ar show ?thesis
      using True by (simp add: sel row_sel_def)
  next
    case False
    show ?thesis
    proof (cases "k < bcLaneCount")
      case True
      have "\<not> bit ?msk k" using False len16 by (simp add: bcLaneCount_def valid_mask_bit)
      with r(4) True False show ?thesis by simp
    next
      case k: False
      then have "\<not> bit (mask (outputLanes (vmState (run ?bc3)))) k"
        using bit_imp_le_length[of "mask (outputLanes (vmState (run ?bc3)))" k]
        by (auto simp: bcLaneCount_def)
      with False show ?thesis by simp
    qed
  qed
  show ?thesis
    using ev r(1,2,3) oc ap bits by (auto simp: add.assoc)
qed

lemma evalfiltergo_loop_done:
  "\<not> i < length dl \<Longrightarrow> evalfiltergo_loop run bc dl i j = Some (bc, dl, j)"
  by (simp add: evalfiltergo_loop.simps)

lemma evalfiltergo_loop_step:
  "i < length dl \<Longrightarrow>
   evalfiltergolanes run bc (take (min (length dl - i) bcLaneCount) (drop i dl)) = Some (bc1, msk) \<Longrightarrow>
   err bc1 = bcerrNone \<Longrightarrow>
   compress (auxpos bc) i [0..<min (length dl - i) bcLaneCount] (auxvals bc1, dl, j, msk) =
     Some (aux', dl', j', m') \<Longrightarrow>
   evalfiltergo_loop run bc dl i j =
     evalfiltergo_loop run (bc1\<lparr>auxvals := aux'\<rparr>) dl' (i + min (length dl - i) bcLaneCount) j'"
  by (subst evalfiltergo_loop.simps) (simp add: Let_def min_absorb2)

lemma evalfiltergo_loop_inv:
  assumes prog: "lane_program run P"
    and auxlen: "\<forall>col0\<in>set aux0. a + length dl0 \<le> length col0"
    and sel: "sel = row_sel P a dl0 aux0"
  shows "i \<le> length dl0 \<Longrightarrow> err bc = bcerrNone \<Longrightarrow> auxpos bc = a + i \<Longrightarrow>
     col_inv sel 0 i j dl dl0 \<Longrightarrow> list_all2 (col_inv sel a i j) (auxvals bc) aux0 \<Longrightarrow>
     j = length (keep_upto sel i) \<Longrightarrow>
     \<exists>bc' dl'. evalfiltergo_loop run bc dl i j =
         Some (bc', dl', length (keep_upto sel (length dl0))) \<and>
       err bc' = bcerrNone \<and>
       col_inv sel 0 (length dl0) (length (keep_upto sel (length dl0))) dl' dl0 \<and>
       list_all2 (col_inv sel a (length dl0) (length (keep_upto sel (length dl0)))) (auxvals bc') aux0"
proof (induction "length dl0 - i" arbitrary: i j bc dl rule: less_induct)
  case less
  have dlen: "length dl = length dl0" using less.prems(4) by (simp add: col_inv_def)
  show ?case
  proof (cases "i < length dl0")
    case False
    with less.prems(1) have "i = length dl0" by simp
    with less.prems dlen show ?thesis
      by (simp add: evalfiltergo_loop_done)
  next
    case True
    define len where "len = min (length dl - i) bcLaneCount"
    have lenpos: "0 < len" "i + len \<le> length dl0"
      using True dlen by (simp_all add: len_def bcLaneCount_def)
    from batch_lanes[OF prog less.prems(2,3,4,5) sel True auxlen len_def]
    obtain bc1 msk where
      ev: "evalfiltergolanes run bc (take len (drop i dl)) = Some (bc1, msk)" and
      e1: "err bc1 = bcerrNone" and a1: "auxvals bc1 = auxvals bc" and
      p1: "auxpos bc1 = a + i + len" and
      bits: "\<forall>k. bit msk k \<longleftrightarrow> k < len \<and> sel (i + k)"
      by blast
    have auxlen': "\<forall>col0\<in>set aux0. a + i + len \<le> length col0"
      using auxlen lenpos by fastforce
    from compress_inv[OF bits lenpos(2) auxlen', of 0 j dl "auxvals bc"] less.prems(4,5,6)
    obtain aux' dl' m' where
      c: "compress (a + i) i [0..<len] (auxvals bc, dl, j, msk) =
            Some (aux', dl', length (keep_upto sel (i + len)), m')" and
      dl': "col_inv sel 0 (i + len) (length (keep_upto sel (i + len))) dl' dl0" and
      ax': "list_all2 (col_inv sel a (i + len) (length (keep_upto sel (i + len)))) aux' aux0"
      by auto
    have m: "length dl0 - (i + len) < length dl0 - i" using True lenpos by simp
    have IH: "\<exists>bc' dl''. evalfiltergo_loop run (bc1\<lparr>auxvals := aux'\<rparr>) dl' (i + len)
                 (length (keep_upto sel (i + len))) =
         Some (bc', dl'', length (keep_upto sel (length dl0))) \<and>
       err bc' = bcerrNone \<and>
       col_inv sel 0 (length dl0) (length (keep_upto sel (length dl0))) dl'' dl0 \<and>
       list_all2 (col_inv sel a (length dl0) (length (keep_upto sel (length dl0)))) (auxvals bc') aux0"
      using less.hyps[OF m lenpos(2), of "bc1\<lparr>auxvals := aux'\<rparr>" "length (keep_upto sel (i + len))" dl']
        e1 p1 dl' ax' by (simp add: add.assoc)
    have "evalfiltergo_loop run bc dl i j =
          evalfiltergo_loop run (bc1\<lparr>auxvals := aux'\<rparr>) dl' (i + len)
                 (length (keep_upto sel (i + len)))"
      unfolding len_def
    proof (rule evalfiltergo_loop_step)
      show "i < length dl" using True dlen by simp
      show "evalfiltergolanes run bc (take (min (length dl - i) bcLaneCount) (drop i dl)) = Some (bc1, msk)"
        using ev by (simp add: len_def)
      show "err bc1 = bcerrNone" by (rule e1)
      show "compress (auxpos bc) i [0..<min (length dl - i) bcLaneCount] (auxvals bc1, dl, j, msk) =
              Some (aux', dl', length (keep_upto sel (i + min (length dl - i) bcLaneCount)), m')"
        using c a1 less.prems(3) by (simp add: len_def)
    qed
    with IH show ?thesis by simp
  qed
qed

lemma select_mask_bit: "k < bcLaneCount \<Longrightarrow> bit (select_mask S) k \<longleftrightarrow> S k"
  by (simp add: select_mask_def fold_lanebit bcLaneCount_def)

lemma lane_program_run_select: "lane_program (run_select P) P"
  by (simp add: lane_program_def run_select_def bcretkgo_def Let_def select_mask_bit lane_selected_def)

lemma lane_program_run_hash: "lane_program (run_hash P H slot) P"
  by (simp add: lane_program_def run_hash_def bcretbhkgo_def Let_def select_mask_bit lane_selected_def
      lane_delim_def aux_row_def)

lemma hash_program_run_hash: "hash_program (run_hash P H slot) slot H"
  by (simp add: hash_program_def run_hash_def bcretbhkgo_def Let_def)

text \<open>
  C3: for a program that decides each row on its own and raises no error, with aux columns
  that reach from the cursor over all the rows, \<open>evalfiltergo\<close> returns the number \<open>j\<close> of
  selected rows; the first \<open>j\<close> delimiters are the selected input delimiters in input order,
  and the first \<open>j\<close> entries of every aux column are the entries of the same rows (counted
  from the cursor on entry), in the same order.
\<close>

theorem evalfiltergo_compacts:
  assumes prog: "lane_program run P"
    and e: "err bc = bcerrNone"
    and auxlen: "\<forall>col\<in>set (auxvals bc). auxpos bc + length dl \<le> length col"
  shows "\<exists>bc' dl'.
     evalfiltergo run bc dl = Some (bc', dl', length (kept_rows P (auxpos bc) dl (auxvals bc))) \<and>
     err bc' = bcerrNone \<and>
     take (length (kept_rows P (auxpos bc) dl (auxvals bc))) dl' =
       map (\<lambda>r. dl ! r) (kept_rows P (auxpos bc) dl (auxvals bc)) \<and>
     map (take (length (kept_rows P (auxpos bc) dl (auxvals bc)))) (auxvals bc') =
       map (\<lambda>col. map (\<lambda>r. col ! (auxpos bc + r)) (kept_rows P (auxpos bc) dl (auxvals bc)))
         (auxvals bc)"
proof -
  define sel where "sel = row_sel P (auxpos bc) dl (auxvals bc)"
  have k: "kept_rows P (auxpos bc) dl (auxvals bc) = keep_upto sel (length dl)"
    by (simp add: kept_rows_def keep_upto_def sel_def)
  have d0: "col_inv sel 0 0 0 dl dl" by (simp add: col_inv_def keep_upto_def)
  have a0: "list_all2 (col_inv sel (auxpos bc) 0 0) (auxvals bc) (auxvals bc)"
    by (simp add: list_all2_same col_inv_def keep_upto_def)
  from evalfiltergo_loop_inv[OF prog auxlen sel_def, of 0 bc 0 dl] e d0 a0
  obtain bc' dl' where
    r: "evalfiltergo_loop run bc dl 0 0 = Some (bc', dl', length (keep_upto sel (length dl)))"
    and e': "err bc' = bcerrNone"
    and dl': "col_inv sel 0 (length dl) (length (keep_upto sel (length dl))) dl' dl"
    and ax: "list_all2 (col_inv sel (auxpos bc) (length dl) (length (keep_upto sel (length dl))))
               (auxvals bc') (auxvals bc)"
    by (auto simp: keep_upto_def)
  have "list_all2 (\<lambda>col c0. take (length (keep_upto sel (length dl))) col =
           map (\<lambda>r. c0 ! (auxpos bc + r)) (keep_upto sel (length dl))) (auxvals bc') (auxvals bc)"
    by (rule list_all2_mono[OF ax]) (simp add: col_inv_def)
  from list_all2_map_eq[OF this] r e' dl' show ?thesis
    by (simp add: evalfiltergo_def k col_inv_def)
qed

text \<open>C3, witness: three rows, the second with an empty delimiter, and one aux column.\<close>

theorem evalfiltergo_compacts_witness:
  "\<exists>bc' dl'.
     evalfiltergo (run_select nonempty_row) (bc_aux [[(10, 1), (11, 1), (12, 1)]])
       [(0, 1), (1, 0), (2, 3)] = Some (bc', dl', 2) \<and>
     take 2 dl' = [(0, 1), (2, 3)] \<and>
     map (take 2) (auxvals bc') = [[(10, 1), (12, 1)]]"
proof -
  have k: "kept_rows nonempty_row 0 [(0, 1), (1, 0), (2, 3)] [[(10, 1), (11, 1), (12, 1)]] = [0, 2]"
    by code_simp
  have e: "err (bc_aux [[(10, 1), (11, 1), (12, 1)]]) = bcerrNone"
    by (simp add: bc_aux_def bc_full_def)
  have a: "\<forall>col\<in>set (auxvals (bc_aux [[(10, 1), (11, 1), (12, 1)]])).
             auxpos (bc_aux [[(10, 1), (11, 1), (12, 1)]]) + length [(0, 1), (1, 0), (2, 3) :: vmref]
               \<le> length col"
    by (simp add: bc_aux_def bc_full_def)
  have p: "auxpos (bc_aux [[(10, 1), (11, 1), (12, 1)]]) = 0"
          "auxvals (bc_aux [[(10, 1), (11, 1), (12, 1)]]) = [[(10, 1), (11, 1), (12, 1)]]"
    by (simp_all add: bc_aux_def bc_full_def)
  from evalfiltergo_compacts[OF lane_program_run_select e a, of nonempty_row]
  show ?thesis
    unfolding p k by (elim exE conjE, intro exI conjI) (simp_all add: eval_nat_numeral)
qed

section \<open>The dedup driver\<close>

lemma batch_rows:
  assumes dl: "col_inv sel 0 i j dl dl0" and aux: "list_all2 (col_inv sel a i j) aux aux0"
    and auxlen: "\<forall>col0\<in>set aux0. a + length dl0 \<le> length col0"
    and len: "len \<le> length dl - i" "len \<le> 16" and k: "k < len"
    and d3: "delims (vmState bc3) = setvmrefB (take len (drop i dl))"
    and a3: "auxvals bc3 = aux" and p3: "auxpos bc3 = a + i"
  shows "lane_delim bc3 k = dl0 ! (i + k)"
    and "aux_row bc3 k = map (\<lambda>col. col ! (a + (i + k))) aux0"
proof -
  have dlen: "length dl = length dl0" using dl by (simp add: col_inv_def)
  have ik: "i + k < length dl" using k len by simp
  have "lane_delim bc3 k = take len (drop i dl) ! k"
    using k len d3 by (simp add: lane_delim_def setvmrefB_def bcLaneCount_def)
  also have "\<dots> = dl ! (i + k)" using k ik by simp
  also have "\<dots> = dl0 ! (i + k)"
    using drop_eq_nth[of "0 + i" dl dl0 k] dl ik by (simp add: col_inv_def)
  finally show "lane_delim bc3 k = dl0 ! (i + k)" .
  have "list_all2 (\<lambda>col c0. col ! (a + i + k) = c0 ! (a + i + k)) aux aux0"
  proof (rule list.rel_mono_strong[OF aux])
    fix col c0 assume c0: "c0 \<in> set aux0" and ci: "col_inv sel a i j col c0"
    from c0 auxlen ik dlen have "a + i + k < length c0" by fastforce
    with ci drop_eq_nth[of "a + i" col c0 k] show "col ! (a + i + k) = c0 ! (a + i + k)"
      by (simp add: col_inv_def)
  qed
  from list_all2_map_eq[OF this]
  show "aux_row bc3 k = map (\<lambda>col. col ! (a + (i + k))) aux0"
    using a3 p3 by (simp add: aux_row_def add.assoc)
qed

lemma dedup_lanes_inv:
  assumes bits: "\<forall>k<len. bit outmask k \<longleftrightarrow> psel (i + k)"
    and hs: "\<forall>k<len. h_lo oh k = hsh (i + k)"
    and sel: "\<forall>r. sel r \<longleftrightarrow> psel r \<and> tree (hsh r) < 0"
    and len16: "len \<le> 16"
    and n: "i + len \<le> length dl0"
    and hn: "length dl0 \<le> hlen"
    and auxlen: "\<forall>col0\<in>set aux0. a + i + len \<le> length col0"
  shows "k0 \<le> len \<Longrightarrow> col_inv sel 0 (i + k0) j dl dl0 \<Longrightarrow>
     list_all2 (col_inv sel a (i + k0) j) aux aux0 \<Longrightarrow>
     hash_inv sel hsh (i + k0) j hashes hlen \<Longrightarrow>
     j = length (keep_upto sel (i + k0)) \<Longrightarrow>
     \<exists>aux' dl' hashes'.
       dedup_lanes tree oh outmask (a + i) i [k0..<len] (aux, dl, hashes, j) =
         Some (aux', dl', hashes', length (keep_upto sel (i + len))) \<and>
       col_inv sel 0 (i + len) (length (keep_upto sel (i + len))) dl' dl0 \<and>
       list_all2 (col_inv sel a (i + len) (length (keep_upto sel (i + len)))) aux' aux0 \<and>
       hash_inv sel hsh (i + len) (length (keep_upto sel (i + len))) hashes' hlen"
proof (induction "len - k0" arbitrary: k0 j dl aux hashes)
  case 0
  then have "k0 = len" by simp
  with 0 show ?case by simp
next
  case (Suc d)
  then have lt: "k0 < len" by simp
  then have upt: "[k0..<len] = k0 # [Suc k0..<len]" by (simp add: upt_conv_Cons)
  have jle: "j \<le> i + k0" using Suc.prems(5) keep_upto_length[of sel "i + k0"] by simp
  have dlen: "length dl = length dl0" using Suc.prems(2) by (simp add: col_inv_def)
  have hlen: "length hashes = hlen" using Suc.prems(4) by (simp add: hash_inv_def)
  have alen: "\<forall>col\<in>set aux. a + i + len \<le> length col"
  proof
    fix col assume "col \<in> set aux"
    then obtain c0 where "c0 \<in> set aux0" "col_inv sel a (i + k0) j col c0"
      using list_all2_setD1[OF Suc.prems(3)] by blast
    with auxlen show "a + i + len \<le> length col" by (auto simp: col_inv_def)
  qed
  have k16: "k0 < 16" using lt len16 by simp
  have skip: "(outmask AND lanebit k0 = 0 \<or> tree (h_lo oh k0) \<ge> 0) = (\<not> sel (i + k0))"
    using lane_set_iff[of outmask k0] bits hs sel lt k16 by auto
  have d': "d = len - Suc k0" using Suc.hyps(2) by simp
  have sk: "Suc k0 \<le> len" using lt by simp
  show ?case
  proof (cases "sel (i + k0)")
    case True
    have "\<forall>col\<in>set aux. a + i + k0 < length col \<and> j < length col"
    proof
      fix col assume "col \<in> set aux"
      with alen have "a + i + len \<le> length col" by blast
      with lt jle show "a + i + k0 < length col \<and> j < length col" by simp
    qed
    then have mv: "move_aux j (a + i + k0) aux = Some (map (\<lambda>col. col[j := col ! (a + i + k0)]) aux)"
      by (rule move_aux_Some)
    have jl: "j < length dl" "i + k0 < length dl" "j < length hashes"
      using jle lt n dlen hlen hn by simp_all
    have dl': "col_inv sel 0 (i + Suc k0) (Suc j) (dl[j := dl ! (i + k0)]) dl0"
      using col_inv_move[OF Suc.prems(2) True Suc.prems(5)] lt n by simp
    have aux': "list_all2 (col_inv sel a (i + Suc k0) (Suc j))
                  (map (\<lambda>col. col[j := col ! (a + i + k0)]) aux) aux0"
      unfolding list_all2_map1
    proof (rule list.rel_mono_strong[OF Suc.prems(3)])
      fix col c0 assume c0: "c0 \<in> set aux0" and ci: "col_inv sel a (i + k0) j col c0"
      from c0 auxlen lt have "a + (i + k0) < length c0" by fastforce
      from col_inv_move[OF ci True Suc.prems(5) this]
      show "col_inv sel a (i + Suc k0) (Suc j) (col[j := col ! (a + i + k0)]) c0"
        by (simp add: add.assoc)
    qed
    have j': "Suc j = length (keep_upto sel (i + Suc k0))"
      using Suc.prems(5) True by (simp add: keep_upto_Suc)
    have "take (Suc j) (hashes[j := h_lo oh k0]) = take j hashes @ [h_lo oh k0]"
      using jl(3) by (simp add: take_Suc_conv_app_nth)
    then have h': "hash_inv sel hsh (i + Suc k0) (Suc j) (hashes[j := h_lo oh k0]) hlen"
      using Suc.prems(4) True hs lt by (simp add: hash_inv_def keep_upto_Suc)
    from Suc.hyps(1)[OF d' sk dl' aux' h' j']
    show ?thesis using upt skip True mv jl by (simp add: add.assoc)
  next
    case False
    have dl': "col_inv sel 0 (i + Suc k0) j dl dl0"
      using col_inv_skip[OF Suc.prems(2) False] by simp
    have aux': "list_all2 (col_inv sel a (i + Suc k0) j) aux aux0"
    proof (rule list_all2_mono[OF Suc.prems(3)])
      fix col c0 assume "col_inv sel a (i + k0) j col c0"
      from col_inv_skip[OF this False] show "col_inv sel a (i + Suc k0) j col c0" by simp
    qed
    have h': "hash_inv sel hsh (i + Suc k0) j hashes hlen"
      using Suc.prems(4) False by (simp add: hash_inv_def keep_upto_Suc)
    have j': "j = length (keep_upto sel (i + Suc k0))"
      using Suc.prems(5) False by (simp add: keep_upto_Suc)
    from Suc.hyps(1)[OF d' sk dl' aux' h' j']
    show ?thesis using upt skip False by simp
  qed
qed

lemma batch_state_simps:
  "err (batch_state bc nxt msk) = err bc"
  "auxpos (batch_state bc nxt msk) = auxpos bc"
  "auxvals (batch_state bc nxt msk) = auxvals bc"
  "delims (vmState (batch_state bc nxt msk)) = setvmrefB nxt"
  "mask (validLanes (vmState (batch_state bc nxt msk))) = msk"
  by (simp_all add: batch_state_def Let_def)

lemma evaldedupgo_loop_done:
  "\<not> p < length dl \<Longrightarrow> evaldedupgo_loop run tree slot bc dl hashes p dout = Some (bc, dl, hashes, dout)"
  by (simp add: evaldedupgo_loop.simps)

lemma valid_mask_if:
  "(if n < bcLaneCount then drop_bit (bcLaneCount - n) (0xffff :: 16 word) else 0xffff) =
   drop_bit (bcLaneCount - n) 0xffff"
  by simp

lemma evaldedupgo_loop_unfold:
  "evaldedupgo_loop run tree slot bc dl hashes p dout =
     (if p < length dl then
        (let n = min (length dl - p) bcLaneCount;
             bc3 = batch_state bc (take n (drop p dl)) (drop_bit (bcLaneCount - n) 0xffff);
             bc4 = eval run bc3
         in if err bc4 \<noteq> bcerrNone then Some (bc4, dl, hashes, 0)
            else
              (case dedup_lanes tree (hslots bc4 slot) (mask (outputLanes (vmState bc4))) (auxpos bc3) p
                      [0..<n] (auxvals bc4, dl, hashes, dout) of
                 None \<Rightarrow> None
               | Some (aux', dl', hashes', dout') \<Rightarrow>
                   evaldedupgo_loop run tree slot (bc4\<lparr>auxvals := aux'\<rparr>) dl' hashes' (p + n) dout'))
      else Some (bc, dl, hashes, dout))"
  apply (subst evaldedupgo_loop.simps)
  apply (simp only: Let_def valid_mask_if batch_state_def)
  done

lemma evaldedupgo_loop_step:
  assumes "p < length dl" and "n = min (length dl - p) bcLaneCount"
    and "bc4 = run (batch_state bc (take n (drop p dl)) (drop_bit (bcLaneCount - n) 0xffff))"
    and "err bc = bcerrNone" and "err bc4 = bcerrNone"
    and "dedup_lanes tree (hslots bc4 slot) (mask (outputLanes (vmState bc4))) (auxpos bc) p
            [0..<n] (auxvals bc4, dl, hashes, dout) = Some (aux', dl', hashes', dout')"
  shows "evaldedupgo_loop run tree slot bc dl hashes p dout =
         evaldedupgo_loop run tree slot (bc4\<lparr>auxvals := aux'\<rparr>) dl' hashes' (p + n) dout'"
proof -
  have e: "eval run (batch_state bc (take n (drop p dl)) (drop_bit (bcLaneCount - n) 0xffff)) = bc4"
    using assms(3,4) by (simp add: eval_def batch_state_simps)
  show ?thesis
    apply (subst evaldedupgo_loop_unfold)
    apply (simp only: assms(1) if_True assms(2)[symmetric] Let_def e assms(5) batch_state_simps)
    apply (simp add: assms(6))
    done
qed

lemma run_batch:
  assumes prog: "lane_program run P" and hprog: "hash_program run slot H"
    and e: "err bc = bcerrNone" and ap: "auxpos bc = a + i"
    and dl: "col_inv sel 0 i j dl dl0" and aux: "list_all2 (col_inv sel a i j) (auxvals bc) aux0"
    and i: "i < length dl0"
    and auxlen: "\<forall>col0\<in>set aux0. a + length dl0 \<le> length col0"
    and len: "len = min (length dl - i) bcLaneCount"
    and bc4: "bc4 = run (batch_state bc (take len (drop i dl)) (drop_bit (bcLaneCount - len) 0xffff))"
  shows "err bc4 = bcerrNone" and "auxvals bc4 = auxvals bc" and "auxpos bc4 = a + i + len"
    and "\<forall>k<len. bit (mask (outputLanes (vmState bc4))) k \<longleftrightarrow> row_sel P a dl0 aux0 (i + k)"
    and "\<forall>k<len. h_lo (hslots bc4 slot) k = row_hash H a dl0 aux0 (i + k)"
proof -
  let ?bc3 = "batch_state bc (take len (drop i dl)) (drop_bit (bcLaneCount - len) 0xffff)"
  have len16: "len \<le> length dl - i" "len \<le> 16" using len by (simp_all add: bcLaneCount_def)
  have e3: "err ?bc3 = bcerrNone" using e by (simp add: batch_state_simps)
  from prog e3 have r: "err (run ?bc3) = bcerrNone" "auxvals (run ?bc3) = auxvals ?bc3"
    "auxpos (run ?bc3) = auxpos ?bc3 + OnesCount16 (mask (validLanes (vmState ?bc3)))"
    "\<forall>k<bcLaneCount. bit (mask (outputLanes (vmState (run ?bc3)))) k \<longleftrightarrow>
           bit (mask (validLanes (vmState ?bc3))) k \<and> P (lane_delim ?bc3 k) (aux_row ?bc3 k)"
    unfolding lane_program_def by blast+
  from hprog e3 have h: "\<forall>k<bcLaneCount. bit (mask (validLanes (vmState ?bc3))) k \<longrightarrow>
           h_lo (hslots (run ?bc3) slot) k = H (lane_delim ?bc3 k) (aux_row ?bc3 k)"
    unfolding hash_program_def by blast
  have vm: "mask (validLanes (vmState ?bc3)) = drop_bit (16 - len) 0xffff"
    by (simp add: batch_state_simps bcLaneCount_def)
  show "err bc4 = bcerrNone" using r(1) bc4 by simp
  show "auxvals bc4 = auxvals bc" using r(2) bc4 by (simp add: batch_state_simps)
  have oc: "OnesCount16 (drop_bit (bcLaneCount - len) (0xffff :: 16 word)) = len"
    using len16 by (simp add: bcLaneCount_def OnesCount16_valid)
  show "auxpos bc4 = a + i + len"
    using r(3) bc4 ap oc by (simp add: batch_state_simps)
  have rows: "lane_delim ?bc3 k = dl0 ! (i + k)"
             "aux_row ?bc3 k = map (\<lambda>col. col ! (a + (i + k))) aux0" if "k < len" for k
    using batch_rows[OF dl aux auxlen len16 that, of ?bc3] ap
    by (simp_all add: batch_state_simps)
  show "\<forall>k<len. bit (mask (outputLanes (vmState bc4))) k \<longleftrightarrow> row_sel P a dl0 aux0 (i + k)"
  proof (intro allI impI)
    fix k assume k: "k < len"
    then have k16: "k < bcLaneCount" using len16 by (simp add: bcLaneCount_def)
    have v: "bit (mask (validLanes (vmState ?bc3))) k"
      using k len16 by (simp only: vm valid_mask_bit)
    from r(4) k16 v rows[OF k] show "bit (mask (outputLanes (vmState bc4))) k \<longleftrightarrow> row_sel P a dl0 aux0 (i + k)"
      by (simp add: bc4 row_sel_def)
  qed
  show "\<forall>k<len. h_lo (hslots bc4 slot) k = row_hash H a dl0 aux0 (i + k)"
  proof (intro allI impI)
    fix k assume k: "k < len"
    then have k16: "k < bcLaneCount" using len16 by (simp add: bcLaneCount_def)
    have v: "bit (mask (validLanes (vmState ?bc3))) k"
      using k len16 by (simp only: vm valid_mask_bit)
    from h k16 v rows[OF k] show "h_lo (hslots bc4 slot) k = row_hash H a dl0 aux0 (i + k)"
      by (simp add: bc4 row_hash_def)
  qed
qed

lemma evaldedupgo_loop_inv:
  assumes prog: "lane_program run P" and hprog: "hash_program run slot H"
    and auxlen: "\<forall>col0\<in>set aux0. a + length dl0 \<le> length col0"
    and hn: "length dl0 \<le> hlen"
    and sel: "sel = row_sel (fresh P H tree) a dl0 aux0"
    and hsh: "hsh = row_hash H a dl0 aux0"
  shows "i \<le> length dl0 \<Longrightarrow> err bc = bcerrNone \<Longrightarrow> auxpos bc = a + i \<Longrightarrow>
     col_inv sel 0 i j dl dl0 \<Longrightarrow> list_all2 (col_inv sel a i j) (auxvals bc) aux0 \<Longrightarrow>
     hash_inv sel hsh i j hashes hlen \<Longrightarrow>
     j = length (keep_upto sel i) \<Longrightarrow>
     \<exists>bc' dl' hashes'. evaldedupgo_loop run tree slot bc dl hashes i j =
         Some (bc', dl', hashes', length (keep_upto sel (length dl0))) \<and>
       err bc' = bcerrNone \<and>
       col_inv sel 0 (length dl0) (length (keep_upto sel (length dl0))) dl' dl0 \<and>
       list_all2 (col_inv sel a (length dl0) (length (keep_upto sel (length dl0)))) (auxvals bc') aux0 \<and>
       hash_inv sel hsh (length dl0) (length (keep_upto sel (length dl0))) hashes' hlen"
proof (induction "length dl0 - i" arbitrary: i j bc dl hashes rule: less_induct)
  case less
  have dlen: "length dl = length dl0" using less.prems(4) by (simp add: col_inv_def)
  show ?case
  proof (cases "i < length dl0")
    case False
    with less.prems(1) have "i = length dl0" by simp
    with less.prems dlen show ?thesis
      by (simp add: evaldedupgo_loop_done)
  next
    case True
    define len where "len = min (length dl - i) bcLaneCount"
    define bc4 where "bc4 = run (batch_state bc (take len (drop i dl)) (drop_bit (bcLaneCount - len) 0xffff))"
    have lenpos: "0 < len" "i + len \<le> length dl0" "len \<le> 16"
      using True dlen by (simp_all add: len_def bcLaneCount_def)
    note rb = run_batch[OF prog hprog less.prems(2,3,4,5) True auxlen len_def bc4_def]
    have auxlen': "\<forall>col0\<in>set aux0. a + i + len \<le> length col0"
      using auxlen lenpos by fastforce
    have s: "\<forall>r. sel r \<longleftrightarrow> row_sel P a dl0 aux0 r \<and> tree (hsh r) < 0"
      by (simp add: sel hsh row_sel_def row_hash_def fresh_def)
    have hs: "\<forall>k<len. h_lo (hslots bc4 slot) k = hsh (i + k)" using rb(5) hsh by simp
    from dedup_lanes_inv[OF rb(4) hs s lenpos(3,2) hn auxlen', of 0 j dl "auxvals bc" hashes]
      less.prems(4,5,6,7)
    obtain aux' dl' hashes' where
      c: "dedup_lanes tree (hslots bc4 slot) (mask (outputLanes (vmState bc4))) (a + i) i [0..<len]
            (auxvals bc, dl, hashes, j) = Some (aux', dl', hashes', length (keep_upto sel (i + len)))" and
      dl': "col_inv sel 0 (i + len) (length (keep_upto sel (i + len))) dl' dl0" and
      ax': "list_all2 (col_inv sel a (i + len) (length (keep_upto sel (i + len)))) aux' aux0" and
      h': "hash_inv sel hsh (i + len) (length (keep_upto sel (i + len))) hashes' hlen"
      by auto
    have m: "length dl0 - (i + len) < length dl0 - i" using True lenpos by simp
    have IH: "\<exists>bc' dl'' hashes''. evaldedupgo_loop run tree slot (bc4\<lparr>auxvals := aux'\<rparr>) dl' hashes' (i + len)
                 (length (keep_upto sel (i + len))) =
         Some (bc', dl'', hashes'', length (keep_upto sel (length dl0))) \<and>
       err bc' = bcerrNone \<and>
       col_inv sel 0 (length dl0) (length (keep_upto sel (length dl0))) dl'' dl0 \<and>
       list_all2 (col_inv sel a (length dl0) (length (keep_upto sel (length dl0)))) (auxvals bc') aux0 \<and>
       hash_inv sel hsh (length dl0) (length (keep_upto sel (length dl0))) hashes'' hlen"
      using less.hyps[OF m lenpos(2), of "bc4\<lparr>auxvals := aux'\<rparr>" "length (keep_upto sel (i + len))" dl' hashes']
        rb(1,3) dl' ax' h' by (simp add: add.assoc)
    have "evaldedupgo_loop run tree slot bc dl hashes i j =
          evaldedupgo_loop run tree slot (bc4\<lparr>auxvals := aux'\<rparr>) dl' hashes' (i + len)
                 (length (keep_upto sel (i + len)))"
    proof (rule evaldedupgo_loop_step[where n = len and ?bc4.0 = bc4])
      show "len = min (length dl - i) bcLaneCount" by (rule len_def)
      show "bc4 = run (batch_state bc (take len (drop i dl)) (drop_bit (bcLaneCount - len) 0xffff))"
        by (rule bc4_def)
      show "err bc = bcerrNone" by (rule less.prems(2))
      show "err bc4 = bcerrNone" by (rule rb(1))
      show "i < length dl" using True dlen by simp
      show "dedup_lanes tree (hslots bc4 slot) (mask (outputLanes (vmState bc4))) (auxpos bc) i [0..<len]
               (auxvals bc4, dl, hashes, j) = Some (aux', dl', hashes', length (keep_upto sel (i + len)))"
        using c rb(2) less.prems(3) by simp
    qed
    with IH show ?thesis by simp
  qed
qed

text \<open>
  C4, as stated, fails: \<open>evaldedupgo\<close> tests each hash against the tree but never inserts
  one. With an empty tree and the hashes 1, 2, 1, 3, 2 of scenario 5 of the spec (all five
  rows in one batch), it returns all five rows and all five hashes, not the rows 1, 2, 4.
\<close>

theorem evaldedupgo_keeps_duplicates_counterexample:
  "map_option (\<lambda>(bc', dl', hashes', n). (n, take n dl', take n hashes'))
     (evaldedupgo (run_hash any_row offset_hash 0) empty_tree 0 (bc_aux []) rows5 [0, 0, 0, 0, 0]) =
   Some (5, [(1, 10), (2, 10), (1, 11), (3, 10), (2, 11)], [1, 2, 1, 3, 2])"
  by code_simp

text \<open>
  C4, amended: for a program that decides and hashes each row on its own and raises no
  error, \<open>evaldedupgo\<close> returns, in input order, exactly the rows that the program selects
  and whose hash is not in the radix tree as it is when the driver is called, together with
  their hashes and their aux entries; rows that share a hash the tree does not hold are all
  returned.
\<close>

theorem evaldedupgo_drops_known_hashes:
  assumes prog: "lane_program run P" and hprog: "hash_program run slot H"
    and e: "err bc = bcerrNone"
    and auxlen: "\<forall>col\<in>set (auxvals bc). auxpos bc + length dl \<le> length col"
    and hn: "length dl \<le> length hashes"
  shows "\<exists>bc' dl' hashes'.
     evaldedupgo run tree slot bc dl hashes =
       Some (bc', dl', hashes', length (kept_rows (fresh P H tree) (auxpos bc) dl (auxvals bc))) \<and>
     err bc' = bcerrNone \<and>
     take (length (kept_rows (fresh P H tree) (auxpos bc) dl (auxvals bc))) dl' =
       map (\<lambda>r. dl ! r) (kept_rows (fresh P H tree) (auxpos bc) dl (auxvals bc)) \<and>
     take (length (kept_rows (fresh P H tree) (auxpos bc) dl (auxvals bc))) hashes' =
       map (row_hash H (auxpos bc) dl (auxvals bc)) (kept_rows (fresh P H tree) (auxpos bc) dl (auxvals bc)) \<and>
     map (take (length (kept_rows (fresh P H tree) (auxpos bc) dl (auxvals bc)))) (auxvals bc') =
       map (\<lambda>col. map (\<lambda>r. col ! (auxpos bc + r)) (kept_rows (fresh P H tree) (auxpos bc) dl (auxvals bc)))
         (auxvals bc)"
proof -
  define sel where "sel = row_sel (fresh P H tree) (auxpos bc) dl (auxvals bc)"
  define hsh where "hsh = row_hash H (auxpos bc) dl (auxvals bc)"
  have k: "kept_rows (fresh P H tree) (auxpos bc) dl (auxvals bc) = keep_upto sel (length dl)"
    by (simp add: kept_rows_def keep_upto_def sel_def)
  have d0: "col_inv sel 0 0 0 dl dl" by (simp add: col_inv_def keep_upto_def)
  have a0: "list_all2 (col_inv sel (auxpos bc) 0 0) (auxvals bc) (auxvals bc)"
    by (simp add: list_all2_same col_inv_def keep_upto_def)
  have h0: "hash_inv sel hsh 0 0 hashes (length hashes)"
    by (simp add: hash_inv_def keep_upto_def)
  from evaldedupgo_loop_inv[OF prog hprog auxlen hn sel_def hsh_def, of 0 bc 0 dl hashes] e d0 a0 h0
  obtain bc' dl' hashes' where
    r: "evaldedupgo_loop run tree slot bc dl hashes 0 0 =
          Some (bc', dl', hashes', length (keep_upto sel (length dl)))"
    and e': "err bc' = bcerrNone"
    and dl': "col_inv sel 0 (length dl) (length (keep_upto sel (length dl))) dl' dl"
    and ax: "list_all2 (col_inv sel (auxpos bc) (length dl) (length (keep_upto sel (length dl))))
               (auxvals bc') (auxvals bc)"
    and hh: "hash_inv sel hsh (length dl) (length (keep_upto sel (length dl))) hashes' (length hashes)"
    by (auto simp: keep_upto_def)
  have "list_all2 (\<lambda>col c0. take (length (keep_upto sel (length dl))) col =
           map (\<lambda>r. c0 ! (auxpos bc + r)) (keep_upto sel (length dl))) (auxvals bc') (auxvals bc)"
    by (rule list_all2_mono[OF ax]) (simp add: col_inv_def)
  from list_all2_map_eq[OF this] r e' dl' hh show ?thesis
    by (simp add: evaldedupgo_def k col_inv_def hash_inv_def hsh_def)
qed

text \<open>C4, witness: the rows of scenario 5 against a tree that holds the hash 2. The rows with
  the hashes 1, 1 and 3 are returned, both occurrences of the hash 1 among them.\<close>

theorem evaldedupgo_drops_known_hashes_witness:
  "\<exists>bc' dl' hashes'.
     evaldedupgo (run_hash any_row offset_hash 0) tree_with_2 0 (bc_aux []) rows5 [0, 0, 0, 0, 0] =
       Some (bc', dl', hashes', 3) \<and>
     take 3 dl' = [(1, 10), (1, 11), (3, 10)] \<and> take 3 hashes' = [1, 1, 3]"
proof -
  have k: "kept_rows (fresh any_row offset_hash tree_with_2) 0 rows5 [] = [0, 2, 3]"
    by code_simp
  have e: "err (bc_aux []) = bcerrNone" by (simp add: bc_aux_def bc_full_def)
  have a: "\<forall>col\<in>set (auxvals (bc_aux [])). auxpos (bc_aux []) + length rows5 \<le> length col"
    by (simp add: bc_aux_def bc_full_def)
  have h: "length rows5 \<le> length [0, 0, 0, 0, 0 :: 64 word]" by (simp add: rows5_def)
  have p: "auxpos (bc_aux []) = 0" "auxvals (bc_aux []) = []"
    by (simp_all add: bc_aux_def bc_full_def)
  have m: "map (\<lambda>r. rows5 ! r) [0, 2, 3] = [(1, 10), (1, 11), (3, 10)]"
          "map (row_hash offset_hash 0 rows5 []) [0, 2, 3] = [1, 1, 3]"
    by code_simp+
  from evaldedupgo_drops_known_hashes[OF lane_program_run_hash hash_program_run_hash e a h,
      of any_row offset_hash 0 tree_with_2]
  show ?thesis
    unfolding p k m by (elim exE conjE, intro exI conjI) (simp_all add: eval_nat_numeral)
qed

section \<open>The projection driver\<close>

lemma put_bytes_frame:
  "length pre = offset \<Longrightarrow> length bs \<le> length mid \<Longrightarrow>
   put_bytes (pre @ mid @ post) offset bs = Some (pre @ bs @ drop (length bs) mid @ post)"
  by (simp add: put_bytes_def)

lemma copy_into_frame:
  "length pre = offset \<Longrightarrow> length src \<le> length mid \<Longrightarrow>
   copy_into (pre @ mid @ post) offset src = Some (pre @ src @ drop (length src) mid @ post, length src)"
  by (simp add: copy_into_def Let_def min_absorb2)

lemma vmref_mem_bytes: "vmref_mem vmm r = Some m \<Longrightarrow> m = mem_bytes vmm r \<and> length m = unat (snd r)"
  by (auto simp: vmref_mem_def mem_bytes_def split: if_splits)

lemma encodeSymbol_bytes_pos: "0 < length (encodeSymbol_bytes s)"
  by (simp add: encodeSymbol_bytes_def)

lemma write_items_frame:
  assumes hints: "\<forall>s\<in>set symbols. sym_value s < 2 ^ 28 \<and> sym_size s = length (encodeSymbol_bytes (sym_value s))"
    and inmem: "\<forall>s\<in>set symbols. vmref_mem vmm (lane_vals bc lane (sym_slot s)) \<noteq> None"
  shows "length pre = offset \<Longrightarrow> length mid = length (items_bytes vmm symbols (lane_vals bc lane)) \<Longrightarrow>
     write_items vmm bc lane symbols (pre @ mid @ post, offset) =
       Some (pre @ items_bytes vmm symbols (lane_vals bc lane) @ post,
             offset + length (items_bytes vmm symbols (lane_vals bc lane)))"
  using hints inmem
proof (induction symbols arbitrary: pre mid offset)
  case Nil
  then show ?case by (simp add: items_bytes_def)
next
  case (Cons s ss)
  let ?sb = "encodeSymbol_bytes (sym_value s)"
  let ?mb = "mem_bytes vmm (lane_vals bc lane (sym_slot s))"
  let ?rest = "items_bytes vmm ss (lane_vals bc lane)"
  have hs: "sym_value s < 2 ^ 28" "sym_size s = length ?sb" using Cons.prems(3) by auto
  have pres: "item_present bc lane s \<longleftrightarrow> snd (lane_vals bc lane (sym_slot s)) \<noteq> 0"
    using hs encodeSymbol_bytes_pos[of "sym_value s"] by (simp add: item_present_def lane_vals_def)
  show ?case
  proof (cases "item_present bc lane s")
    case False
    then have "items_bytes vmm (s # ss) (lane_vals bc lane) = ?rest"
      using pres by (simp add: items_bytes_def)
    with False Cons.IH[OF Cons.prems(1)] Cons.prems show ?thesis by simp
  next
    case True
    then have it: "items_bytes vmm (s # ss) (lane_vals bc lane) = ?sb @ ?mb @ ?rest"
      using pres by (simp add: items_bytes_def)
    from Cons.prems(4) obtain m where m: "vmref_mem vmm (lane_vals bc lane (sym_slot s)) = Some m"
      by auto
    from vmref_mem_bytes[OF m] have mm: "m = ?mb" by simp
    have len: "length mid = length ?sb + length ?mb + length ?rest"
      using Cons.prems(2) it by simp
    have e: "encodeSymbol (pre @ mid @ post) offset (sym_value s) =
               Some (pre @ ?sb @ drop (length ?sb) mid @ post, length ?sb)"
      using hs put_bytes_frame[OF Cons.prems(1), of ?sb mid post] len
      by (simp add: encodeSymbol_def)
    have c: "copy_into (pre @ ?sb @ drop (length ?sb) mid @ post) (offset + length ?sb) ?mb =
               Some ((pre @ ?sb) @ ?mb @ drop (length ?mb) (drop (length ?sb) mid) @ post, length ?mb)"
      using copy_into_frame[of "pre @ ?sb" "offset + length ?sb" ?mb "drop (length ?sb) mid" post]
        Cons.prems(1) len by simp
    have ih: "write_items vmm bc lane ss
                ((pre @ ?sb @ ?mb) @ drop (length ?mb) (drop (length ?sb) mid) @ post,
                 offset + length ?sb + length ?mb) =
              Some ((pre @ ?sb @ ?mb) @ ?rest @ post, offset + length ?sb + length ?mb + length ?rest)"
      using Cons.IH[of "pre @ ?sb @ ?mb" "offset + length ?sb + length ?mb"
          "drop (length ?mb) (drop (length ?sb) mid)"] Cons.prems(1,3,4) len
      by simp
    show ?thesis
      using True e m mm c ih it
      by (simp add: Let_def lane_vals_def[symmetric] add.assoc)
  qed
qed

lemma content_size_fold:
  assumes hints: "\<forall>s\<in>set symbols. sym_value s < 2 ^ 28 \<and> sym_size s = length (encodeSymbol_bytes (sym_value s))"
    and inmem: "\<forall>s\<in>set symbols. vmref_mem vmm (lane_vals bc lane (sym_slot s)) \<noteq> None"
  shows "fold (\<lambda>s contentSize.
             if item_present bc lane s
             then contentSize + (sym_size s + unat (v_sizes (vslots bc (sym_slot s)) lane))
             else contentSize) symbols c =
         c + length (items_bytes vmm symbols (lane_vals bc lane))"
  using hints inmem
proof (induction symbols arbitrary: c)
  case Nil
  then show ?case by (simp add: items_bytes_def)
next
  case (Cons s ss)
  have hs: "sym_size s = length (encodeSymbol_bytes (sym_value s))" using Cons.prems(1) by auto
  have pres: "item_present bc lane s \<longleftrightarrow> snd (lane_vals bc lane (sym_slot s)) \<noteq> 0"
    using hs encodeSymbol_bytes_pos[of "sym_value s"] by (simp add: item_present_def lane_vals_def)
  from Cons.prems(2) obtain m where m: "vmref_mem vmm (lane_vals bc lane (sym_slot s)) = Some m"
    by auto
  from vmref_mem_bytes[OF m]
  have ml: "length (mem_bytes vmm (lane_vals bc lane (sym_slot s))) = unat (v_sizes (vslots bc (sym_slot s)) lane)"
    by (auto simp: lane_vals_def)
  have it: "length (items_bytes vmm (s # ss) (lane_vals bc lane)) =
            (if item_present bc lane s
             then sym_size s + unat (v_sizes (vslots bc (sym_slot s)) lane) else 0) +
            length (items_bytes vmm ss (lane_vals bc lane))"
    using pres hs ml by (simp add: items_bytes_def)
  show ?case
    using Cons.IH[of "if item_present bc lane s
             then c + (sym_size s + unat (v_sizes (vslots bc (sym_slot s)) lane)) else c"]
      Cons.prems it
    by simp
qed

lemma content_size_eq:
  assumes "\<forall>s\<in>set symbols. sym_value s < 2 ^ 28 \<and> sym_size s = length (encodeSymbol_bytes (sym_value s))"
    and "\<forall>s\<in>set symbols. vmref_mem vmm (lane_vals bc lane (sym_slot s)) \<noteq> None"
  shows "content_size bc symbols lane = length (items_bytes vmm symbols (lane_vals bc lane))"
  using content_size_fold[OF assms, of 0] by (simp add: content_size_def)

lemma tlv_bytes_length: "len < 2 ^ 28 \<Longrightarrow> length (encodeTLVUnsafe_bytes t len) = getTLVSize len"
  by (simp add: encodeTLVUnsafe_bytes_def getTLVSize_def Let_def)

lemma tlv_bytes_length_le: "length (encodeTLVUnsafe_bytes t len) \<le> getTLVSize len"
  by (simp add: encodeTLVUnsafe_bytes_def getTLVSize_def Let_def)

lemma struct_bytes_length:
  "length (struct_bytes vmm symbols vals) =
     length (encodeTLVUnsafe_bytes StructType (length (items_bytes vmm symbols vals))) +
     length (items_bytes vmm symbols vals)"
  by (simp add: struct_bytes_def)

lemma lane_active_iff: "(msk AND push_bit lane 1 = 0) = (\<not> (bit msk lane \<and> lane < 16))" for msk :: "16 word"
  using lane_set_iff[of msk lane] unfolding lanebit_def by blast

lemma project_lanes_frame:
  fixes msk :: "16 word"
  assumes hints: "\<forall>s\<in>set symbols. sym_value s < 2 ^ 28 \<and> sym_size s = length (encodeSymbol_bytes (sym_value s))"
    and inmem: "\<forall>k<n. bit msk k \<longrightarrow> (\<forall>s\<in>set symbols. vmref_mem vmm (lane_vals bc k (sym_slot s)) \<noteq> None)"
    and cap: "cap < 2 ^ 28" and n16: "n \<le> 16" and rows: "rp + n \<le> dlen"
    and S: "\<And>k. S k = struct_bytes vmm symbols (lane_vals bc k)"
  shows "k0 \<le> n \<Longrightarrow> length pre = offset \<Longrightarrow> length (pre @ rest) = cap \<Longrightarrow> length dl = dlen \<Longrightarrow>
     (if offset + length (concat (map S (filter (bit msk) [k0..<n]))) \<le> cap
      then \<exists>dl'. project_lanes vmm bc symbols dstDisp cap msk rp [k0..<n] (pre @ rest, dl, offset) =
             Emitted (pre @ concat (map S (filter (bit msk) [k0..<n])) @
                        drop (length (concat (map S (filter (bit msk) [k0..<n])))) rest,
                      dl', offset + length (concat (map S (filter (bit msk) [k0..<n])))) \<and>
           length dl' = dlen \<and> drop (rp + n) dl' = drop (rp + n) dl
      else \<exists>dst' dl' offset'.
             project_lanes vmm bc symbols dstDisp cap msk rp [k0..<n] (pre @ rest, dl, offset) =
               BufferFull (dst', dl', offset') \<and>
             length dst' = cap \<and> take offset dst' = pre)"
proof (induction "n - k0" arbitrary: k0 pre rest offset dl)
  case 0
  then have "k0 = n" by simp
  with 0 show ?case by simp
next
  case (Suc d)
  then have lt: "k0 < n" by simp
  then have upt: "[k0..<n] = k0 # [Suc k0..<n]" by (simp add: upt_conv_Cons)
  have k16: "k0 < 16" using lt n16 by simp
  have d': "d = n - Suc k0" using Suc.hyps(2) by simp
  have sk: "Suc k0 \<le> n" using lt by simp
  let ?B' = "concat (map S (filter (bit msk) [Suc k0..<n]))"
  show ?case
  proof (cases "bit msk k0")
    case False
    then have skip: "msk AND push_bit k0 1 = 0" using lane_active_iff[of msk k0] by blast
    have IH: "if offset + length ?B' \<le> cap
      then \<exists>dl'. project_lanes vmm bc symbols dstDisp cap msk rp [Suc k0..<n] (pre @ rest, dl, offset) =
             Emitted (pre @ ?B' @ drop (length ?B') rest, dl', offset + length ?B') \<and>
           length dl' = dlen \<and> drop (rp + n) dl' = drop (rp + n) dl
      else \<exists>dst' dl' offset'.
             project_lanes vmm bc symbols dstDisp cap msk rp [Suc k0..<n] (pre @ rest, dl, offset) =
               BufferFull (dst', dl', offset') \<and>
             length dst' = cap \<and> take offset dst' = pre"
      by (rule Suc.hyps(1)[OF d' sk Suc.prems(2,3,4)])
    have st: "project_lanes vmm bc symbols dstDisp cap msk rp [k0..<n] (pre @ rest, dl, offset) =
              project_lanes vmm bc symbols dstDisp cap msk rp [Suc k0..<n] (pre @ rest, dl, offset)"
      using skip upt by simp
    have fl: "filter (bit msk) [k0..<n] = filter (bit msk) [Suc k0..<n]"
      using False upt by simp
    show ?thesis unfolding st fl by (rule IH)
  next
    case True
    then have act: "msk AND push_bit k0 1 \<noteq> 0" using k16 lane_active_iff[of msk k0] by blast
    have im: "\<forall>s\<in>set symbols. vmref_mem vmm (lane_vals bc k0 (sym_slot s)) \<noteq> None"
      using inmem lt True by blast
    let ?I = "items_bytes vmm symbols (lane_vals bc k0)"
    let ?H = "encodeTLVUnsafe_bytes StructType (length ?I)"
    have cs: "content_size bc symbols k0 = length ?I" by (rule content_size_eq[OF hints im])
    have Sk: "S k0 = ?H @ ?I" by (simp add: S struct_bytes_def)
    have B: "concat (map S (filter (bit msk) [k0..<n])) = S k0 @ ?B'" using upt True by simp
    show ?thesis
    proof (cases "offset + (getTLVSize (length ?I) + length ?I) \<le> cap")
      case nofit: False
      have ol: "offset \<le> cap" using Suc.prems(2,3) by simp
      have isfull: "offset \<le> cap \<and> cap - offset < getTLVSize (length ?I) + length ?I"
        using nofit ol by arith
      have full: "project_lanes vmm bc symbols dstDisp cap msk rp [k0..<n] (pre @ rest, dl, offset) =
                    BufferFull (pre @ rest, dl, offset)"
        using upt act cs isfull by (simp add: Let_def)
      have "\<not> offset + length (S k0) \<le> cap"
      proof (cases "length ?I < 2 ^ 28")
        case True
        then show ?thesis using nofit Sk by (simp add: tlv_bytes_length)
      next
        case False
        then show ?thesis using cap by simp (simp add: Sk)
      qed
      then have "\<not> offset + length (concat (map S (filter (bit msk) [k0..<n]))) \<le> cap"
        using B by simp
      with full Suc.prems(2,3) show ?thesis by simp
    next
      case fit: True
      then have small: "length ?I < 2 ^ 28" using cap by simp
      have hl: "length ?H = getTLVSize (length ?I)" using small by (rule tlv_bytes_length)
      have sl: "length (S k0) = getTLVSize (length ?I) + length ?I" using Sk hl by simp
      have rl: "length (S k0) \<le> length rest" using fit sl Suc.prems(2,3) by simp
      have nofull: "\<not> cap - offset < getTLVSize (length ?I) + length ?I"
        using fit by arith
      define mid where "mid = take (length (S k0)) rest"
      define post where "post = drop (length (S k0)) rest"
      have dst: "rest = mid @ post" by (simp add: mid_def post_def)
      have ml: "length mid = length ?H + length ?I" using rl Sk by (simp add: mid_def)
      have tlv: "encodeTLVUnsafe (pre @ mid @ post) offset StructType (length ?I) =
                   Some (pre @ ?H @ drop (length ?H) mid @ post, length ?H)"
        using put_bytes_frame[OF Suc.prems(2), of ?H mid post] ml small
        by (simp add: encodeTLVUnsafe_def)
      have wi: "write_items vmm bc k0 symbols (pre @ ?H @ drop (length ?H) mid @ post, offset + length ?H) =
                  Some (pre @ ?H @ ?I @ post, offset + length ?H + length ?I)"
        using write_items_frame[OF hints im, of "pre @ ?H" "offset + length ?H" "drop (length ?H) mid" post]
          Suc.prems(2) ml by simp
      have rowlt: "rp + k0 < length dl" using rows lt Suc.prems(4) by simp
      let ?dl1 = "dl[rp + k0 := (dstDisp + word_of_nat (offset + length ?H), word_of_nat (length ?I))]"
      have step: "project_lanes vmm bc symbols dstDisp cap msk rp [k0..<n] (pre @ rest, dl, offset) =
                  project_lanes vmm bc symbols dstDisp cap msk rp [Suc k0..<n]
                    ((pre @ S k0) @ post, ?dl1, offset + length (S k0))"
        unfolding dst
        using upt act cs nofull tlv wi rowlt Sk
        by (simp add: Let_def add.assoc)
      have pl: "length (pre @ S k0) = offset + length (S k0)" using Suc.prems(2) by simp
      have cl: "length ((pre @ S k0) @ post) = cap" using Suc.prems(3) ml Sk dst by simp
      have dl1: "length ?dl1 = dlen" using Suc.prems(4) by simp
      note IH = Suc.hyps(1)[OF d' sk pl cl dl1]
      have dd: "drop (length ?B') post = drop (length (S k0 @ ?B')) rest"
        by (simp add: post_def add.commute)
      have dk: "drop (rp + n) ?dl1 = drop (rp + n) dl" using lt by simp
      show ?thesis
      proof (cases "offset + length (S k0) + length ?B' \<le> cap")
        case True
        with IH obtain dl' where
          r: "project_lanes vmm bc symbols dstDisp cap msk rp [Suc k0..<n]
                ((pre @ S k0) @ post, ?dl1, offset + length (S k0)) =
              Emitted ((pre @ S k0) @ ?B' @ drop (length ?B') post, dl', offset + length (S k0) + length ?B')"
          and l: "length dl' = dlen" and d: "drop (rp + n) dl' = drop (rp + n) ?dl1"
          by auto
        show ?thesis
          using True step r l d dk dd B by (simp add: add.assoc)
      next
        case False
        with IH obtain dst' dl' offset' where
          r: "project_lanes vmm bc symbols dstDisp cap msk rp [Suc k0..<n]
                ((pre @ S k0) @ post, ?dl1, offset + length (S k0)) = BufferFull (dst', dl', offset')"
          and l: "length dst' = cap" and t: "take (offset + length (S k0)) dst' = pre @ S k0"
          by auto
        have "take offset dst' = take offset (take (offset + length (S k0)) dst')"
          by (simp add: min_absorb1)
        also have "\<dots> = pre" using t Suc.prems(2) by simp
        finally have "take offset dst' = pre" .
        with False step B r l show ?thesis by (simp add: add.assoc)
      qed
    qed
  qed
qed

lemma full_mask: "push_bit n (1 :: 16 word) - 1 = Bit_Operations.mask n"
  by (simp add: mask_eq_exp_minus_1)

lemma full_mask_bit: "n \<le> 16 \<Longrightarrow> bit (push_bit n (1 :: 16 word) - 1) k \<longleftrightarrow> k < n"
  by (auto simp only: full_mask bit_mask_iff possible_bit_word) simp

lemma OnesCount16_full: "n \<le> 16 \<Longrightarrow> OnesCount16 (push_bit n (1 :: 16 word) - 1) = n"
  using full_mask_bit[of n] by (simp add: OnesCount16_def filter_less_upt del: push_bit_of_1)

lemma project_state_simps:
  "err (project_state bc dl rp n) = bcerrNone"
  "auxpos (project_state bc dl rp n) = auxpos bc"
  "auxvals (project_state bc dl rp n) = auxvals bc"
  "delims (vmState (project_state bc dl rp n)) = load_delims (delims (vmState bc)) dl rp n"
  "mask (validLanes (vmState (project_state bc dl rp n))) = push_bit n 1 - 1"
  by (simp_all add: project_state_def Let_def)

lemma evalprojectgo_loop_unfold:
  "evalprojectgo_loop run vmm symbols dstDisp bc dl dst offset rowsProcessed =
     (if rowsProcessed < length dl then
        (let n = min (length dl - rowsProcessed) bcLaneCount;
             bc4 = eval run (project_state bc dl rowsProcessed n)
         in if err bc4 \<noteq> bcerrNone then Some (bc4, dl, dst, offset, rowsProcessed)
            else
              (case project_lanes vmm bc4 symbols dstDisp (length dst)
                      (mask (outputLanes (vmState bc4))) rowsProcessed [0..<n] (dst, dl, offset) of
                 Panicked \<Rightarrow> None
               | BufferFull (dst', dl', offset') \<Rightarrow> Some (bc4, dl', dst', offset, rowsProcessed)
               | Emitted (dst', dl', offset') \<Rightarrow>
                   evalprojectgo_loop run vmm symbols dstDisp bc4 dl' dst' offset' (rowsProcessed + n)))
      else Some (bc, dl, dst, offset, rowsProcessed))"
  apply (subst evalprojectgo_loop.simps)
  apply (simp only: Let_def project_state_def)
  done

lemma evalprojectgo_loop_step:
  assumes "rp < length dl" and "n = min (length dl - rp) bcLaneCount"
    and "bc4 = run (project_state bc dl rp n)" and "err bc4 = bcerrNone"
  shows "evalprojectgo_loop run vmm symbols dstDisp bc dl dst offset rp =
     (case project_lanes vmm bc4 symbols dstDisp (length dst)
             (mask (outputLanes (vmState bc4))) rp [0..<n] (dst, dl, offset) of
        Panicked \<Rightarrow> None
      | BufferFull (dst', dl', offset') \<Rightarrow> Some (bc4, dl', dst', offset, rp)
      | Emitted (dst', dl', offset') \<Rightarrow>
          evalprojectgo_loop run vmm symbols dstDisp bc4 dl' dst' offset' (rp + n))"
proof -
  have e: "eval run (project_state bc dl rp n) = bc4"
    using assms(3) by (simp add: eval_def project_state_simps)
  show ?thesis
    apply (subst evalprojectgo_loop_unfold)
    apply (simp only: assms(1) if_True assms(2)[symmetric] Let_def e assms(4))
    apply simp
    done
qed

lemma run_project_batch:
  assumes prog: "lane_program run P" and vprog: "value_program run V"
    and ap: "auxpos bc = a + rp" and ax: "auxvals bc = aux0"
    and dl: "length dl = length dl0" "drop rp dl = drop rp dl0"
    and n: "n = min (length dl - rp) bcLaneCount" and rp: "rp < length dl0"
    and bc4: "bc4 = run (project_state bc dl rp n)"
  shows "err bc4 = bcerrNone" and "auxvals bc4 = aux0" and "auxpos bc4 = a + rp + n"
    and "\<forall>k<n. bit (mask (outputLanes (vmState bc4))) k \<longleftrightarrow> row_sel P a dl0 aux0 (rp + k)"
    and "\<forall>k<n. \<forall>slot. (v_offsets (vslots bc4 slot) k, v_sizes (vslots bc4 slot) k) = row_val V a dl0 aux0 (rp + k) slot"
proof -
  let ?bc3 = "project_state bc dl rp n"
  have n16: "n \<le> 16" "n \<le> length dl - rp" using n by (simp_all add: bcLaneCount_def)
  have e3: "err ?bc3 = bcerrNone" by (simp add: project_state_simps)
  from prog e3 have r: "err (run ?bc3) = bcerrNone" "auxvals (run ?bc3) = auxvals ?bc3"
    "auxpos (run ?bc3) = auxpos ?bc3 + OnesCount16 (mask (validLanes (vmState ?bc3)))"
    "\<forall>k<bcLaneCount. bit (mask (outputLanes (vmState (run ?bc3)))) k \<longleftrightarrow>
           bit (mask (validLanes (vmState ?bc3))) k \<and> P (lane_delim ?bc3 k) (aux_row ?bc3 k)"
    unfolding lane_program_def by blast+
  from vprog e3 have v: "\<forall>k<bcLaneCount. bit (mask (validLanes (vmState ?bc3))) k \<longrightarrow>
           (\<forall>slot. (v_offsets (vslots (run ?bc3) slot) k, v_sizes (vslots (run ?bc3) slot) k) =
                    V slot (lane_delim ?bc3 k) (aux_row ?bc3 k))"
    unfolding value_program_def by blast
  show "err bc4 = bcerrNone" using r(1) bc4 by simp
  show "auxvals bc4 = aux0" using r(2) bc4 ax by (simp add: project_state_simps)
  show "auxpos bc4 = a + rp + n"
    using r(3) bc4 ap OnesCount16_full[OF n16(1)] by (simp only: project_state_simps)
  have rows: "lane_delim ?bc3 k = dl0 ! (rp + k)"
             "aux_row ?bc3 k = map (\<lambda>col. col ! (a + (rp + k))) aux0"
             "bit (mask (validLanes (vmState ?bc3))) k" "k < bcLaneCount" if "k < n" for k
  proof -
    have "lane_delim ?bc3 k = dl ! (rp + k)"
      using that by (simp add: lane_delim_def project_state_simps load_delims_def)
    also have "\<dots> = dl0 ! (rp + k)"
      using drop_eq_nth[OF dl(2,1), of k] that n16 by simp
    finally show "lane_delim ?bc3 k = dl0 ! (rp + k)" .
    show "aux_row ?bc3 k = map (\<lambda>col. col ! (a + (rp + k))) aux0"
      using ap ax by (simp add: aux_row_def project_state_simps add.assoc)
    show "bit (mask (validLanes (vmState ?bc3))) k"
      using that full_mask_bit[OF n16(1), of k] by (simp only: project_state_simps)
    show "k < bcLaneCount" using that n16 by (simp add: bcLaneCount_def)
  qed
  show "\<forall>k<n. bit (mask (outputLanes (vmState bc4))) k \<longleftrightarrow> row_sel P a dl0 aux0 (rp + k)"
    using r(4) rows by (simp add: bc4 row_sel_def)
  show "\<forall>k<n. \<forall>slot. (v_offsets (vslots bc4 slot) k, v_sizes (vslots bc4 slot) k) = row_val V a dl0 aux0 (rp + k) slot"
    using v rows by (simp add: bc4 row_val_def)
qed

lemma concat_filter_shift:
  "concat (map (\<lambda>k. F (rp + k)) (filter (\<lambda>k. Q (rp + k)) [0..<n])) =
   concat (map F (filter Q [rp..<rp + n]))"
  by (induction n) auto

lemma length_concat_filter:
  "length (concat (map F (filter Q [i..<j]))) = sum_list (map (\<lambda>r. if Q r then length (F r) else 0) [i..<j])"
proof (induction j)
  case 0
  then show ?case by simp
next
  case (Suc j)
  then show ?case by (cases "i \<le> j") auto
qed

lemma filter_cong_upt:
  "\<forall>k<n. Q k = Q' k \<Longrightarrow> filter Q [0..<n] = filter Q' [0..<n]"
  by (rule filter_cong) auto

lemma project_extent_done: "\<not> rp < n \<Longrightarrow> project_extent sz n cap off rp = (off, rp)"
  by (simp add: project_extent.simps)

lemma project_extent_fit:
  "rp < n \<Longrightarrow> b = min (n - rp) bcLaneCount \<Longrightarrow> off + sum_list (map sz [rp..<rp + b]) \<le> cap \<Longrightarrow>
   project_extent sz n cap off rp = project_extent sz n cap (off + sum_list (map sz [rp..<rp + b])) (rp + b)"
  by (subst project_extent.simps) (simp add: Let_def)

lemma project_extent_full:
  "rp < n \<Longrightarrow> b = min (n - rp) bcLaneCount \<Longrightarrow> \<not> off + sum_list (map sz [rp..<rp + b]) \<le> cap \<Longrightarrow>
   project_extent sz n cap off rp = (off, rp)"
  by (subst project_extent.simps) (simp add: Let_def)

lemma emitted_bytes_more:
  "emitted_bytes vmm symbols P V a dl aux (rp + n) =
   emitted_bytes vmm symbols P V a dl aux rp @
   concat (map (\<lambda>r. struct_bytes vmm symbols (row_val V a dl aux r))
             (filter (row_sel P a dl aux) [rp..<rp + n]))"
proof -
  have "[0..<rp + n] = [0..<rp] @ [rp..<rp + n]"
    by (metis le_add1 upt_add_eq_append zero_le)
  then show ?thesis by (simp add: emitted_bytes_def)
qed

lemma evalprojectgo_loop_inv:
  assumes prog: "lane_program run P" and vprog: "value_program run V"
    and hints: "\<forall>s\<in>set symbols. sym_value s < 2 ^ 28 \<and> sym_size s = length (encodeSymbol_bytes (sym_value s))"
    and inmem: "\<forall>r<length dl0. row_sel P a dl0 aux0 r \<longrightarrow>
                  (\<forall>s\<in>set symbols. vmref_mem vmm (row_val V a dl0 aux0 r (sym_slot s)) \<noteq> None)"
    and cap: "cap < 2 ^ 28"
    and sz: "sz = row_size vmm symbols P V a dl0 aux0"
  shows "rp \<le> length dl0 \<Longrightarrow> auxpos bc = a + rp \<Longrightarrow> auxvals bc = aux0 \<Longrightarrow>
     length dl = length dl0 \<Longrightarrow> drop rp dl = drop rp dl0 \<Longrightarrow>
     length dst = cap \<Longrightarrow> offset \<le> cap \<Longrightarrow>
     take offset dst = emitted_bytes vmm symbols P V a dl0 aux0 rp \<Longrightarrow>
     \<exists>bc' dl' dst'.
       evalprojectgo_loop run vmm symbols dstDisp bc dl dst offset rp =
         Some (bc', dl', dst', fst (project_extent sz (length dl0) cap offset rp),
               snd (project_extent sz (length dl0) cap offset rp)) \<and>
       length dst' = cap \<and>
       take (fst (project_extent sz (length dl0) cap offset rp)) dst' =
         emitted_bytes vmm symbols P V a dl0 aux0 (snd (project_extent sz (length dl0) cap offset rp))"
proof (induction "length dl0 - rp" arbitrary: rp bc dl dst offset rule: less_induct)
  case less
  show ?case
  proof (cases "rp < length dl0")
    case False
    then have "evalprojectgo_loop run vmm symbols dstDisp bc dl dst offset rp = Some (bc, dl, dst, offset, rp)"
      using less.prems(4) by (subst evalprojectgo_loop_unfold) simp
    with False less.prems show ?thesis by (simp add: project_extent_done)
  next
    case True
    define n where "n = min (length dl - rp) bcLaneCount"
    define bc4 where "bc4 = run (project_state bc dl rp n)"
    have npos: "0 < n" "rp + n \<le> length dl0" "n \<le> 16"
      using True less.prems(4) by (simp_all add: n_def bcLaneCount_def)
    have n0: "n = min (length dl0 - rp) bcLaneCount" using less.prems(4) by (simp add: n_def)
    note rb = run_project_batch[OF prog vprog less.prems(2,3,4,5) n_def True bc4_def]
    have ev: "eval run (project_state bc dl rp n) = bc4"
      by (simp add: eval_def project_state_simps bc4_def)
    define S where "S = (\<lambda>k. struct_bytes vmm symbols (lane_vals bc4 k))"
    define msk where "msk = mask (outputLanes (vmState bc4))"
    have lv: "lane_vals bc4 k = row_val V a dl0 aux0 (rp + k)" if "k < n" for k
      using rb(5) that by (auto simp: lane_vals_def fun_eq_iff)
    have bits: "bit msk k \<longleftrightarrow> row_sel P a dl0 aux0 (rp + k)" if "k < n" for k
      using rb(4) that by (simp add: msk_def)
    have im: "\<forall>k<n. bit msk k \<longrightarrow> (\<forall>s\<in>set symbols. vmref_mem vmm (lane_vals bc4 k (sym_slot s)) \<noteq> None)"
    proof (intro allI impI)
      fix k assume k: "k < n" and b: "bit msk k"
      then have "rp + k < length dl0" "row_sel P a dl0 aux0 (rp + k)" using npos bits by simp_all
      with inmem lv[OF k] show "\<forall>s\<in>set symbols. vmref_mem vmm (lane_vals bc4 k (sym_slot s)) \<noteq> None"
        by simp
    qed
    let ?B = "concat (map S (filter (bit msk) [0..<n]))"
    let ?R = "concat (map (\<lambda>r. struct_bytes vmm symbols (row_val V a dl0 aux0 r))
                 (filter (row_sel P a dl0 aux0) [rp..<rp + n]))"
    have f1: "filter (bit msk) [0..<n] = filter (\<lambda>k. row_sel P a dl0 aux0 (rp + k)) [0..<n]"
      by (rule filter_cong_upt) (simp add: bits)
    have ms: "map S (filter (\<lambda>k. row_sel P a dl0 aux0 (rp + k)) [0..<n]) =
          map (\<lambda>k. struct_bytes vmm symbols (row_val V a dl0 aux0 (rp + k)))
            (filter (\<lambda>k. row_sel P a dl0 aux0 (rp + k)) [0..<n])"
      by (rule map_cong) (auto simp: S_def lv)
    have "?B = concat (map S (filter (\<lambda>k. row_sel P a dl0 aux0 (rp + k)) [0..<n]))"
      by (simp only: f1)
    also have "\<dots> = concat (map (\<lambda>k. struct_bytes vmm symbols (row_val V a dl0 aux0 (rp + k)))
            (filter (\<lambda>k. row_sel P a dl0 aux0 (rp + k)) [0..<n]))"
      by (simp only: ms)
    also have "\<dots> = ?R"
      by (rule concat_filter_shift)
    finally have BR: "?B = ?R" .
    have tot: "length ?R = sum_list (map sz [rp..<rp + n])"
      by (simp add: length_concat_filter sz row_size_def[abs_def])
    define pre where "pre = take offset dst"
    define rest where "rest = drop offset dst"
    have dst: "dst = pre @ rest" by (simp add: pre_def rest_def)
    have pl: "length pre = offset" using less.prems(6,7) by (simp add: pre_def)
    have cl: "length (pre @ rest) = cap" using less.prems(6) dst by simp
    have rows: "rp + n \<le> length dl0" by (rule npos(2))
    note PL = project_lanes_frame[OF hints im cap npos(3) rows, of S 0 pre offset rest dl dstDisp,
        OF _ _ pl cl less.prems(4)]
    have PL': "if offset + length ?B \<le> cap
      then \<exists>dl'. project_lanes vmm bc4 symbols dstDisp cap msk rp [0..<n] (pre @ rest, dl, offset) =
             Emitted (pre @ ?B @ drop (length ?B) rest, dl', offset + length ?B) \<and>
           length dl' = length dl0 \<and> drop (rp + n) dl' = drop (rp + n) dl
      else \<exists>dst' dl' offset'.
             project_lanes vmm bc4 symbols dstDisp cap msk rp [0..<n] (pre @ rest, dl, offset) =
               BufferFull (dst', dl', offset') \<and>
             length dst' = cap \<and> take offset dst' = pre"
      by (rule PL) (simp_all add: S_def)
    have rpl: "rp < length dl" using True less.prems(4) by simp
    have unf: "evalprojectgo_loop run vmm symbols dstDisp bc dl dst offset rp =
        (case project_lanes vmm bc4 symbols dstDisp cap msk rp [0..<n] (pre @ rest, dl, offset) of
                 Panicked \<Rightarrow> None
               | BufferFull (dst', dl', offset') \<Rightarrow> Some (bc4, dl', dst', offset, rp)
               | Emitted (dst', dl', offset') \<Rightarrow>
                   evalprojectgo_loop run vmm symbols dstDisp bc4 dl' dst' offset' (rp + n))"
      using evalprojectgo_loop_step[where rp = rp and dl = dl and n = n and ?bc4.0 = bc4 and run = run
          and bc = bc and vmm = vmm and symbols = symbols and dstDisp = dstDisp and dst = dst
          and offset = offset, OF rpl n_def bc4_def rb(1)]
      by (simp only: less.prems(6) msk_def[symmetric] dst[symmetric])
    show ?thesis
    proof (cases "offset + length ?B \<le> cap")
      case fit: True
      with PL' obtain dl' where
        r: "project_lanes vmm bc4 symbols dstDisp cap msk rp [0..<n] (pre @ rest, dl, offset) =
              Emitted (pre @ ?B @ drop (length ?B) rest, dl', offset + length ?B)"
        and l: "length dl' = length dl0" and d: "drop (rp + n) dl' = drop (rp + n) dl"
        by auto
      have d0: "drop (rp + n) dl' = drop (rp + n) dl0"
        using d drop_eq_more[OF less.prems(5), of n] by simp
      have m: "length dl0 - (rp + n) < length dl0 - rp" using True npos by simp
      have rl: "length ?B \<le> length rest" using fit cl pl by simp
      have cl': "length (pre @ ?B @ drop (length ?B) rest) = cap" using cl rl by simp
      have tk: "take (offset + length ?B) (pre @ ?B @ drop (length ?B) rest) =
                emitted_bytes vmm symbols P V a dl0 aux0 (rp + n)"
        using pl less.prems(8) BR by (simp add: emitted_bytes_more pre_def)
      have ap': "auxpos bc4 = a + (rp + n)" using rb(3) by simp
      note IH = less.hyps[OF m rows ap' rb(2) l d0 cl' fit tk]
      have pe: "project_extent sz (length dl0) cap offset rp =
                project_extent sz (length dl0) cap (offset + length ?B) (rp + n)"
        using project_extent_fit[OF True n0, of offset sz cap] fit tot BR by simp
      show ?thesis
        using IH unf r pe by simp
    next
      case nofit: False
      with PL' obtain dst' dl' offset' where
        r: "project_lanes vmm bc4 symbols dstDisp cap msk rp [0..<n] (pre @ rest, dl, offset) =
              BufferFull (dst', dl', offset')"
        and l: "length dst' = cap" and t: "take offset dst' = pre"
        by auto
      have pe: "project_extent sz (length dl0) cap offset rp = (offset, rp)"
        using project_extent_full[OF True n0, of offset sz cap] nofit tot BR by simp
      show ?thesis
        using unf r pe l t less.prems(8) by (simp add: pre_def)
    qed
  qed
qed

lemma lane_program_run_values: "lane_program (run_values P V) P"
  by (simp add: lane_program_def run_values_def bcretkgo_def Let_def select_mask_bit lane_selected_def
      lane_delim_def aux_row_def)

lemma value_program_run_values: "value_program (run_values P V) V"
  by (simp add: value_program_def run_values_def bcretkgo_def Let_def)

text \<open>
  C5: for a program that decides and computes each row on its own, projection items whose
  size is the size of their encoded symbol, values that lie in memory and an output buffer
  of less than \<open>1 << 28\<close> bytes, \<open>evalprojectgo\<close> returns the offset and the row count that
  \<open>project_extent\<close> gives: every batch that fits is written, and at the first batch that the
  buffer cannot hold the driver returns the offset and the number of rows at which that
  batch began. The buffer up to the returned offset holds, for every surviving row below the
  returned row count and in input order, the struct of that row: the items whose value is
  not MISSING, each as encoded symbol and value, behind a header that carries the length of
  exactly this content.
\<close>

theorem evalprojectgo_emits_structs:
  assumes prog: "lane_program run P" and vprog: "value_program run V"
    and hints: "\<forall>s\<in>set symbols. sym_value s < 2 ^ 28 \<and> sym_size s = length (encodeSymbol_bytes (sym_value s))"
    and inmem: "\<forall>r<length dl. row_sel P (auxpos bc) dl (auxvals bc) r \<longrightarrow>
                  (\<forall>s\<in>set symbols. vmref_mem vmm (row_val V (auxpos bc) dl (auxvals bc) r (sym_slot s)) \<noteq> None)"
    and cap: "length dst < 2 ^ 28"
  shows "\<exists>bc' dl' dst'.
     evalprojectgo run vmm symbols (Some dstDisp) bc dl dst =
       Some (bc', dl', dst',
             fst (project_extent (row_size vmm symbols P V (auxpos bc) dl (auxvals bc)) (length dl) (length dst) 0 0),
             snd (project_extent (row_size vmm symbols P V (auxpos bc) dl (auxvals bc)) (length dl) (length dst) 0 0)) \<and>
     length dst' = length dst \<and>
     take (fst (project_extent (row_size vmm symbols P V (auxpos bc) dl (auxvals bc)) (length dl) (length dst) 0 0)) dst' =
       emitted_bytes vmm symbols P V (auxpos bc) dl (auxvals bc)
         (snd (project_extent (row_size vmm symbols P V (auxpos bc) dl (auxvals bc)) (length dl) (length dst) 0 0))"
  using evalprojectgo_loop_inv[OF prog vprog hints inmem cap refl, of 0 bc dl dst 0 dstDisp]
  by (simp add: evalprojectgo_def emitted_bytes_def)

text \<open>C5, witness: scenario 4 of the spec with a buffer of 8 bytes. The struct has the header
  0xd3 (a struct with 3 bytes of content), the symbol 10 and the two bytes of the value;
  the MISSING field is left out.\<close>

theorem evalprojectgo_emits_structs_witness:
  "\<exists>bc' dl' dst'.
     evalprojectgo (run_values any_row only_slot0) [0x21, 0x01] items_a_b (Some 0) (bc_aux [])
       [(0, 2)] [0, 0, 0, 0, 0, 0, 0, 0] = Some (bc', dl', dst', 4, 1) \<and>
     take 4 dst' = [0xd3, 0x8a, 0x21, 0x01]"
proof -
  have h: "\<forall>s\<in>set items_a_b. sym_value s < 2 ^ 28 \<and> sym_size s = length (encodeSymbol_bytes (sym_value s))"
    by (simp add: items_a_b_def encodeSymbol_bytes_def)
  have m: "\<forall>r<length [(0, 2) :: vmref].
             row_sel any_row (auxpos (bc_aux [])) [(0, 2)] (auxvals (bc_aux [])) r \<longrightarrow>
             (\<forall>s\<in>set items_a_b. vmref_mem [0x21, 0x01]
                (row_val only_slot0 (auxpos (bc_aux [])) [(0, 2)] (auxvals (bc_aux [])) r (sym_slot s)) \<noteq> None)"
    by (simp add: items_a_b_def row_val_def only_slot0_def vmref_mem_def)
  have c: "length [0, 0, 0, 0, 0, 0, 0, 0 :: byte] < 2 ^ 28" by simp
  have p: "auxpos (bc_aux []) = 0" "auxvals (bc_aux []) = []"
    by (simp_all add: bc_aux_def bc_full_def)
  have x: "project_extent (row_size [0x21, 0x01] items_a_b any_row only_slot0 0 [(0, 2)] [])
             (length [(0, 2) :: vmref]) (length [0, 0, 0, 0, 0, 0, 0, 0 :: byte]) 0 0 = (4, 1)"
    by code_simp
  have b: "emitted_bytes [0x21, 0x01] items_a_b any_row only_slot0 0 [(0, 2)] [] (Suc 0) =
             [0xd3, 0x8a, 0x21, 0x01]"
    by code_simp
  from evalprojectgo_emits_structs[OF lane_program_run_values value_program_run_values h m c, of 0]
  show ?thesis
    unfolding p x by (elim exE conjE, intro exI conjI) (simp_all add: b)
qed

end
